theory Spec2Isabelle
  imports Complex_Main "HOL-Library.AList" "HOL-Library.DAList" "HOL-Library.Product_Lexorder"
begin

section \<open>Values shared by the services\<close>

text \<open>
  A token is identified by its mint address, a string. Dates are milliseconds since the
  epoch. A JavaScript number is modelled as a real number or \<open>NaN\<close>: rounding and the
  infinities of IEEE doubles are left out, \<open>NaN\<close> is kept because the code tests for it.
  \<open>NaN\<close> also stands for an argument that was not passed (\<open>undefined\<close>), which
  \<open>isNaN\<close> and \<open>||\<close> treat the same way.
\<close>

type_synonym address = string
type_synonym date = int

datatype jsnum = NaN | Num real

datatype js_error = TypeError

definition isNaN :: "jsnum \<Rightarrow> bool" where
  "isNaN x = (case x of NaN \<Rightarrow> True | Num _ \<Rightarrow> False)"

text \<open>\<open>x <= 0\<close> on numbers: every comparison with \<open>NaN\<close> is false.\<close>

definition js_le0 :: "jsnum \<Rightarrow> bool" where
  "js_le0 x = (case x of NaN \<Rightarrow> False | Num r \<Rightarrow> r \<le> 0)"

text \<open>\<open>x || 0\<close> on numbers: \<open>NaN\<close> and \<open>0\<close> are falsy.\<close>

definition js_or0 :: "jsnum \<Rightarrow> real" where
  "js_or0 x = (case x of NaN \<Rightarrow> 0 | Num r \<Rightarrow> (if r = 0 then 0 else r))"

text \<open>\<open>a + b\<close> on numbers: \<open>NaN\<close> is absorbing.\<close>

fun js_add :: "jsnum \<Rightarrow> jsnum \<Rightarrow> jsnum" where
  "js_add (Num a) (Num b) = Num (a + b)"
| "js_add _ _ = NaN"

text \<open>\<open>s || ''\<close> and \<open>s || null\<close> on optional strings: the empty string is falsy.\<close>

definition or_empty :: "string option \<Rightarrow> string" where
  "or_empty s = (case s of None \<Rightarrow> [] | Some t \<Rightarrow> t)"

definition or_null :: "string option \<Rightarrow> string option" where
  "or_null s = (case s of None \<Rightarrow> None | Some t \<Rightarrow> (if t = [] then None else Some t))"

section \<open>services/candleManager.js\<close>

text \<open>
  Source: \<open>src/services/candleManager.js\<close>. The three \<open>Map\<close>s of the class are association lists with one entry per key, in
  insertion order (\<open>Map.set\<close> on a present key keeps its place, as \<open>DAList.update\<close>
  does). A buffer entry is \<open>null\<close> (\<open>None\<close>) while the token waits for its first
  trade of the period.
\<close>

record meta =
  m_symbol :: "string option"
  m_name :: "string option"
  m_poolAddress :: "string option"
  m_launchedAt :: "date option"

record buffer =
  b_open :: real
  b_high :: real
  b_low :: real
  b_close :: real
  b_volume :: real
  b_tradeCount :: nat

record candle =
  tokenAddress :: address
  poolAddress :: "string option"
  symbol :: string
  timestamp :: date
  c_open :: real
  c_high :: real
  c_low :: real
  c_close :: real
  c_volume :: real
  tradeCount :: nat

record candleManager =
  buffers :: "(address, buffer option) alist"
  tracked :: "(address, meta) alist"
  lastPrices :: "(address, real) alist"

definition constructor :: candleManager where
  "constructor = \<lparr>buffers = DAList.empty, tracked = DAList.empty, lastPrices = DAList.empty\<rparr>"

definition empty_meta :: meta where
  "empty_meta = \<lparr>m_symbol = None, m_name = None, m_poolAddress = None, m_launchedAt = None\<rparr>"

definition addToken :: "address \<Rightarrow> meta \<Rightarrow> candleManager \<Rightarrow> candleManager" where
  "addToken a m cm =
     (if DAList.lookup (tracked cm) a \<noteq> None then cm
      else cm\<lparr>tracked := DAList.update a m (tracked cm),
              buffers := DAList.update a None (buffers cm)\<rparr>)"

definition removeToken :: "address \<Rightarrow> candleManager \<Rightarrow> candleManager" where
  "removeToken a cm =
     cm\<lparr>tracked := DAList.delete a (tracked cm),
        buffers := DAList.delete a (buffers cm),
        lastPrices := DAList.delete a (lastPrices cm)\<rparr>"

text \<open>
  \<open>addTrade\<close> returns the exception it raised, if any, and the manager it leaves behind.
  The only raise is the property write on \<open>undefined\<close> when the token is tracked but
  has no buffer entry; the price cache has been written by then.
\<close>

definition addTrade ::
  "address \<Rightarrow> jsnum \<Rightarrow> jsnum \<Rightarrow> candleManager \<Rightarrow> js_error option \<times> candleManager" where
  "addTrade a price volume cm =
     (if DAList.lookup (tracked cm) a = None then (None, cm)
      else if isNaN price \<or> js_le0 price then (None, cm)
      else
        (case price of
           NaN \<Rightarrow> (None, cm)
         | Num p \<Rightarrow>
            (let cm1 = cm\<lparr>lastPrices := DAList.update a p (lastPrices cm)\<rparr> in
             case DAList.lookup (buffers cm) a of
               None \<Rightarrow> (Some TypeError, cm1)
             | Some None \<Rightarrow>
                 (None, cm1\<lparr>buffers := DAList.update a
                    (Some \<lparr>b_open = p, b_high = p, b_low = p, b_close = p,
                           b_volume = js_or0 volume, b_tradeCount = 1\<rparr>) (buffers cm1)\<rparr>)
             | Some (Some buf) \<Rightarrow>
                 (None, cm1\<lparr>buffers := DAList.update a
                    (Some (buf\<lparr>b_high := max (b_high buf) p,
                               b_low := min (b_low buf) p,
                               b_close := p,
                               b_volume := b_volume buf + js_or0 volume,
                               b_tradeCount := b_tradeCount buf + 1\<rparr>)) (buffers cm1)\<rparr>))))"

text \<open>A run of samples for one token, as the price poller delivers them; it stops at a raise.\<close>

fun addTrades ::
  "address \<Rightarrow> (jsnum \<times> jsnum) list \<Rightarrow> candleManager \<Rightarrow> js_error option \<times> candleManager" where
  "addTrades a [] cm = (None, cm)"
| "addTrades a (s # ss) cm =
     (case addTrade a (fst s) (snd s) cm of
        (Some e, cm1) \<Rightarrow> (Some e, cm1)
      | (None, cm1) \<Rightarrow> addTrades a ss cm1)"

text \<open>
  \<open>closeCandlesFor\<close> walks the buffer entries in order; the candles handed to
  \<open>emit\<close> are collected in a list.
\<close>

definition mk_candle :: "date \<Rightarrow> meta \<Rightarrow> address \<Rightarrow> buffer \<Rightarrow> candle" where
  "mk_candle ts m a buf =
     \<lparr>tokenAddress = a,
      poolAddress = or_null (m_poolAddress m),
      symbol = or_empty (m_symbol m),
      timestamp = ts,
      c_open = b_open buf, c_high = b_high buf, c_low = b_low buf,
      c_close = b_close buf, c_volume = b_volume buf,
      tradeCount = b_tradeCount buf\<rparr>"

definition meta_of :: "candleManager \<Rightarrow> address \<Rightarrow> meta" where
  "meta_of cm a = (case DAList.lookup (tracked cm) a of None \<Rightarrow> empty_meta | Some m \<Rightarrow> m)"

definition close_entry ::
  "date \<Rightarrow> address \<times> buffer option \<Rightarrow> candle list \<times> candleManager \<Rightarrow> candle list \<times> candleManager" where
  "close_entry ts e acc =
     (case snd e of
        None \<Rightarrow> acc
      | Some buf \<Rightarrow>
          (fst acc @ [mk_candle ts (meta_of (snd acc) (fst e)) (fst e) buf],
           (snd acc)\<lparr>buffers := DAList.update (fst e) None (buffers (snd acc))\<rparr>))"

definition closeCandlesFor :: "date \<Rightarrow> candleManager \<Rightarrow> candle list \<times> candleManager" where
  "closeCandlesFor ts cm = fold (close_entry ts) (DAList.impl_of (buffers cm)) ([], cm)"

text \<open>A sample is valid when its price is a number above zero.\<close>

definition valid_price :: "jsnum \<Rightarrow> bool" where
  "valid_price x = (\<not> isNaN x \<and> \<not> js_le0 x)"

definition price_of :: "jsnum \<times> jsnum \<Rightarrow> real" where
  "price_of s = (case fst s of NaN \<Rightarrow> 0 | Num p \<Rightarrow> p)"

text \<open>The buffer after further samples, and a buffer opened by a first sample.\<close>

definition fed :: "buffer \<Rightarrow> (jsnum \<times> jsnum) list \<Rightarrow> buffer" where
  "fed buf ss = buf\<lparr>b_high := fold max (map price_of ss) (b_high buf),
      b_low := fold min (map price_of ss) (b_low buf),
      b_close := last (b_close buf # map price_of ss),
      b_volume := b_volume buf + sum_list (map (js_or0 \<circ> snd) ss),
      b_tradeCount := b_tradeCount buf + length ss\<rparr>"

definition opened :: "jsnum \<times> jsnum \<Rightarrow> buffer" where
  "opened s = \<lparr>b_open = price_of s, b_high = price_of s, b_low = price_of s,
     b_close = price_of s, b_volume = js_or0 (snd s), b_tradeCount = 1\<rparr>"

text \<open>What one step of the closing loop does to the buffer map.\<close>

definition closing ::
  "address \<times> buffer option \<Rightarrow> (address, buffer option) alist \<Rightarrow> (address, buffer option) alist" where
  "closing e B = (case snd e of None \<Rightarrow> B | Some _ \<Rightarrow> DAList.update (fst e) None B)"

text \<open>The sum of a list of numbers as JavaScript computes it, left to right from \<open>0\<close>.\<close>

definition js_sum :: "jsnum list \<Rightarrow> jsnum" where
  "js_sum xs = foldl js_add (Num 0) xs"

section \<open>services/strategy.js\<close>

text \<open>
  Source: \<open>src/unnamed/part_004\<close>, from line 99 (\<open>strategy.js\<close>); its test is in
  \<open>src/test.js\<close>. The history is the list of candle documents, oldest first, or \<open>None\<close> when the caller
  passes \<open>null\<close> or nothing. Prices and volumes of stored candles are real numbers. The
  options object carries the flag, or no flag at all (then the default \<open>false\<close> applies).
\<close>

record opts =
  requireVolumeSpike :: "bool option"

record signal =
  s_tokenAddress :: address
  s_symbol :: string
  ema9 :: real
  ema20 :: real
  rsi :: real
  s_volume :: real
  avgVolume :: real
  volumeSpikeActive :: bool
  isVolumeSpike :: bool
  isSignal :: bool
  s_price :: real

text \<open>
  The two entry points of the \<open>technicalindicators\<close> package that the strategy calls,
  \<open>EMA.calculate({period, values})\<close> and \<open>RSI.calculate({period, values})\<close>. The
  package is not part of the repository, so the strategy takes them as a parameter.
\<close>

record indicators =
  EMA_calculate :: "nat \<Rightarrow> real list \<Rightarrow> real list"
  RSI_calculate :: "nat \<Rightarrow> real list \<Rightarrow> real list"

definition MIN_CANDLES :: nat where
  "MIN_CANDLES = 21"

text \<open>\<open>Array.prototype.slice(start, end)\<close>: a negative index counts from the end.\<close>

definition js_slice :: "'a list \<Rightarrow> int \<Rightarrow> int \<Rightarrow> 'a list" where
  "js_slice xs start end =
     (let len = int (length xs);
          from = (if start < 0 then max (len + start) 0 else min start len);
          to = (if end < 0 then max (len + end) 0 else min end len)
      in take (nat (to - from)) (drop (nat from) xs))"

text \<open>\<open>s || t\<close> on strings.\<close>

definition or_string :: "string \<Rightarrow> string \<Rightarrow> string" where
  "or_string s t = (if s = [] then t else s)"

definition checkStrategy :: "indicators \<Rightarrow> candle list option \<Rightarrow> opts \<Rightarrow> signal option" where
  "checkStrategy lib history opts =
     (let requireSpike = (case requireVolumeSpike opts of None \<Rightarrow> False | Some b \<Rightarrow> b) in
      case history of
        None \<Rightarrow> None
      | Some h \<Rightarrow>
          if length h < MIN_CANDLES then None
          else
            let closes = map c_close h;
                volumes = map c_volume h;
                ema9Result = EMA_calculate lib 9 closes;
                ema20Result = EMA_calculate lib 20 closes
            in
            if length ema9Result < 2 \<or> length ema20Result < 2 then None
            else
              let ema9Curr = ema9Result ! (length ema9Result - 1);
                  ema9Prev = ema9Result ! (length ema9Result - 2);
                  ema20Curr = ema20Result ! (length ema20Result - 1);
                  ema20Prev = ema20Result ! (length ema20Result - 2);
                  isCrossover = (ema9Prev \<le> ema20Prev \<and> ema9Curr > ema20Curr)
              in
              if \<not> isCrossover then None
              else
                let rsiResult = RSI_calculate lib 14 closes in
                if length rsiResult = 0 then None
                else
                  let rsi_v = rsiResult ! (length rsiResult - 1);
                      isRsiGood = (rsi_v > 50)
                  in
                  if \<not> isRsiGood then None
                  else
                    let recentVolumes = js_slice volumes (- 11) (- 1);
                        currentVolume = volumes ! (length volumes - 1);
                        avg = (if length recentVolumes \<ge> 5
                               then foldl (+) 0 recentVolumes / real (length recentVolumes)
                               else 0);
                        spike = (avg > 0 \<and> currentVolume > avg * (3 / 2))
                    in
                    if requireSpike \<and> \<not> spike then None
                    else
                      let latest = h ! (length h - 1) in
                      Some \<lparr>s_tokenAddress = tokenAddress latest,
                            s_symbol = or_string (symbol latest) (tokenAddress latest),
                            ema9 = ema9Curr,
                            ema20 = ema20Curr,
                            rsi = rsi_v,
                            s_volume = currentVolume,
                            avgVolume = avg,
                            volumeSpikeActive = requireSpike,
                            isVolumeSpike = spike,
                            isSignal = True,
                            s_price = c_close latest\<rparr>)"

text \<open>
  The trailing average volume as \<open>checkStrategy\<close> computes it: the mean of the (at most
  ten) candles before the last one, or \<open>0\<close> when there are fewer than five of them.
\<close>

definition recentVolumes_of :: "candle list \<Rightarrow> real list" where
  "recentVolumes_of h = js_slice (map c_volume h) (- 11) (- 1)"

definition avgVolume_of :: "candle list \<Rightarrow> real" where
  "avgVolume_of h =
     (if length (recentVolumes_of h) \<ge> 5
      then foldl (+) 0 (recentVolumes_of h) / real (length (recentVolumes_of h))
      else 0)"

text \<open>
  Modelled from the spec: the forward pass of \<open>EMA.calculate\<close> of the
  \<open>technicalindicators\<close> package, which is not among the sources. Each value moves the
  average by the smoothing factor \<open>k\<close> times its distance from the previous average.
\<close>

fun ema_forward :: "real \<Rightarrow> real \<Rightarrow> real list \<Rightarrow> real list" where
  "ema_forward k prev [] = []"
| "ema_forward k prev (v # vs) = ((v - prev) * k + prev) # ema_forward k ((v - prev) * k + prev) vs"

text \<open>
  Modelled from the spec: \<open>EMA.calculate\<close> of the \<open>technicalindicators\<close> package, which
  is not among the sources. Smoothing factor \<open>2 / (period + 1)\<close>, seeded with the simple
  average of the first \<open>period\<close> values, then applied forward; one output per value from
  the seed on, none when there are fewer than \<open>period\<close> values.
\<close>

definition spec_EMA :: "nat \<Rightarrow> real list \<Rightarrow> real list" where
  "spec_EMA period vs =
     (if period = 0 \<or> length vs < period then []
      else
        let seed = sum_list (take period vs) / real period
        in seed # ema_forward (2 / (real period + 1)) seed (drop period vs))"

text \<open>
  Modelled from the spec: the closing-price deltas that \<open>RSI.calculate\<close> of the
  \<open>technicalindicators\<close> package works on, the differences of consecutive values.
\<close>

fun deltas :: "real list \<Rightarrow> real list" where
  "deltas (a # b # vs) = (b - a) # deltas (b # vs)"
| "deltas _ = []"

text \<open>
  Modelled from the spec: the index that \<open>RSI.calculate\<close> derives from the average gain
  and the average loss, \<open>100 - 100 / (1 + avgGain / avgLoss)\<close>, and \<open>100\<close> when the
  average loss is zero, which keeps it between 0 and 100 (the test of the strategy expects
  \<open>RSI 100\<close> on a rise without losses).
\<close>

definition rsi_value :: "real \<Rightarrow> real \<Rightarrow> real" where
  "rsi_value avgGain avgLoss =
     (if avgLoss = 0 then 100 else 100 - 100 / (1 + avgGain / avgLoss))"

text \<open>
  Modelled from the spec: the Wilder smoothing of \<open>RSI.calculate\<close>. Gains and losses are
  the positive and negative parts of the deltas; each average becomes
  \<open>(previous * (period - 1) + current) / period\<close>.
\<close>

fun rsi_forward :: "nat \<Rightarrow> real \<Rightarrow> real \<Rightarrow> real list \<Rightarrow> real list" where
  "rsi_forward period g l [] = []"
| "rsi_forward period g l (d # ds) =
     (let g' = (g * (real period - 1) + max d 0) / real period;
          l' = (l * (real period - 1) + max (- d) 0) / real period
      in rsi_value g' l' # rsi_forward period g' l' ds)"

text \<open>
  Modelled from the spec: \<open>RSI.calculate\<close> of the \<open>technicalindicators\<close> package, which
  is not among the sources. The averages start as the simple means of the gains and losses
  of the first \<open>period\<close> deltas and are then smoothed forward; one output per delta from
  the \<open>period\<close>-th on, none when there are fewer than \<open>period\<close> deltas.
\<close>

definition spec_RSI :: "nat \<Rightarrow> real list \<Rightarrow> real list" where
  "spec_RSI period vs =
     (let ds = deltas vs in
      if period = 0 \<or> length ds < period then []
      else
        let g = sum_list (map (\<lambda>d. max d 0) (take period ds)) / real period;
            l = sum_list (map (\<lambda>d. max (- d) 0) (take period ds)) / real period
        in rsi_value g l # rsi_forward period g l (drop period ds))"

text \<open>
  Modelled from the spec: the \<open>technicalindicators\<close> package as the strategy uses it, the
  two modelled indicators together.
\<close>

definition technicalindicators :: indicators where
  "technicalindicators = \<lparr>EMA_calculate = spec_EMA, RSI_calculate = spec_RSI\<rparr>"

text \<open>A candle document with a given close and volume, for the scenarios.\<close>

definition mk :: "real \<Rightarrow> real \<Rightarrow> candle" where
  "mk cl vol =
     \<lparr>tokenAddress = ''TEST_MINT'', poolAddress = None, symbol = ''TEST'', timestamp = 0,
      c_open = cl, c_high = cl, c_low = cl, c_close = cl, c_volume = vol, tradeCount = 0\<rparr>"


section \<open>models: the three collections\<close>

text \<open>
  Sources: \<open>src/models/Candle.js\<close>, \<open>src/models/Token.js\<close> and
  \<open>src/unnamed/part_006\<close> (\<open>models/BackfillQueue.js\<close>). A collection with a unique index is an association list with one entry per key, in
  insertion order. The backfill queue and the token registry are keyed by the token
  address, the candle store by the pair of token address and timestamp (the compound
  unique index of \<open>models/Candle.js\<close>).
\<close>

datatype status = Pending | Done | Failed

record task =
  q_symbol :: string
  q_name :: string
  q_poolAddress :: "string option"
  q_status :: status
  q_attempts :: nat
  q_lastAttempt :: "date option"
  q_error :: "string option"
  q_enqueuedAt :: date
  q_completedAt :: "date option"

record token =
  t_symbol :: "string option"
  t_name :: "string option"
  t_poolAddress :: "string option"
  t_launchedAt :: "date option"
  t_isActive :: bool

record candle_doc =
  d_poolAddress :: "string option"
  d_open :: real
  d_high :: real
  d_low :: real
  d_close :: real
  d_volume :: real

text \<open>A candle as the historical fetch returns it.\<close>

record ohlcv =
  o_timestamp :: date
  o_open :: real
  o_high :: real
  o_low :: real
  o_close :: real
  o_volume :: real

type_synonym candle_store = "(address \<times> date, candle_doc) alist"

text \<open>
  A write that meets an existing key is refused by the unique index with error code 11000
  and leaves the store as it was. \<open>insertMany\<close> with \<open>ordered: false\<close> goes on after a
  refused document and reports the refusals at the end.
\<close>

datatype write_error = DuplicateKey

definition insertOne ::
  "('k \<times> 'v) \<Rightarrow> ('k, 'v) alist \<Rightarrow> write_error option \<times> ('k, 'v) alist" where
  "insertOne kd c =
     (if DAList.lookup c (fst kd) \<noteq> None then (Some DuplicateKey, c)
      else (None, DAList.update (fst kd) (snd kd) c))"

fun insertMany ::
  "('k \<times> 'v) list \<Rightarrow> ('k, 'v) alist \<Rightarrow> write_error list \<times> ('k, 'v) alist" where
  "insertMany [] c = ([], c)"
| "insertMany (kd # kds) c =
     (let r1 = insertOne kd c; r2 = insertMany kds (snd r1)
      in ((case fst r1 of None \<Rightarrow> [] | Some e \<Rightarrow> [e]) @ fst r2, snd r2))"

text \<open>\<open>updateOne\<close> without \<open>upsert\<close>: the matching document is changed, if there is one.\<close>

definition updateOne :: "'k \<Rightarrow> ('v \<Rightarrow> 'v) \<Rightarrow> ('k, 'v) alist \<Rightarrow> ('k, 'v) alist" where
  "updateOne k f c = (case DAList.lookup c k of None \<Rightarrow> c | Some v \<Rightarrow> DAList.update k (f v) c)"

definition countDocuments :: "address \<Rightarrow> candle_store \<Rightarrow> nat" where
  "countDocuments a c = length (filter (\<lambda>e. fst (fst e) = a) (DAList.impl_of c))"

section \<open>services/gecko.js and the runtime around the queue\<close>

text \<open>
  Source: \<open>src/unnamed/part_004\<close>, lines 1 to 98. Both functions catch every failure of
  the request and answer \<open>null\<close> or the empty list.
  What the outside world answers during one operation: the pool listing and the candle
  listing of the data provider, and whether the registry lookup of step 4 rejects.
\<close>

record env =
  gecko_pool :: "address \<Rightarrow> string option"
  gecko_ohlcv :: "string \<Rightarrow> nat \<Rightarrow> ohlcv list"
  tokenFindThrows :: "address \<Rightarrow> bool"

definition resolvePoolAddress :: "env \<Rightarrow> address \<Rightarrow> string option" where
  "resolvePoolAddress e a = or_null (gecko_pool e a)"

definition getBackfillData :: "env \<Rightarrow> string option \<Rightarrow> nat \<Rightarrow> ohlcv list" where
  "getBackfillData e pool limit =
     (case or_null pool of None \<Rightarrow> [] | Some p \<Rightarrow> gecko_ohlcv e p limit)"

text \<open>A JavaScript \<open>Set\<close> of strings: insertion-ordered, no duplicates.\<close>

definition set_add :: "'a \<Rightarrow> 'a list \<Rightarrow> 'a list" where
  "set_add x xs = (if x \<in> set xs then xs else xs @ [x])"

record world =
  queue :: "(address, task) alist"
  tokens :: "(address, token) alist"
  candles :: candle_store
  manager :: candleManager
  initialised :: bool
  trackedMints :: "address list"
  draining :: bool

section \<open>services/storage.js\<close>

text \<open>Source: \<open>src/unnamed/part_005\<close>.\<close>

definition saveCandle :: "candle \<Rightarrow> world \<Rightarrow> world" where
  "saveCandle c w =
     w\<lparr>candles := snd (insertOne
          ((tokenAddress c, timestamp c),
           \<lparr>d_poolAddress = poolAddress c, d_open = c_open c, d_high = c_high c,
            d_low = c_low c, d_close = c_close c, d_volume = c_volume c\<rparr>) (candles w))\<rparr>"

definition backfill_docs ::
  "address \<Rightarrow> string option \<Rightarrow> ohlcv list \<Rightarrow> ((address \<times> date) \<times> candle_doc) list" where
  "backfill_docs a pool cs =
     map (\<lambda>c. ((a, o_timestamp c),
               \<lparr>d_poolAddress = or_null pool, d_open = o_open c, d_high = o_high c,
                d_low = o_low c, d_close = o_close c, d_volume = o_volume c\<rparr>)) cs"

text \<open>The \<open>catch\<close> of \<open>backfillCandles\<close> only logs: the refusals are dropped.\<close>

definition backfillCandles :: "address \<Rightarrow> string option \<Rightarrow> ohlcv list \<Rightarrow> world \<Rightarrow> world" where
  "backfillCandles a pool cs w =
     (if cs = [] then w
      else w\<lparr>candles := snd (insertMany (backfill_docs a pool cs) (candles w))\<rparr>)"

definition getLatestCandleTime :: "address \<Rightarrow> world \<Rightarrow> date option" where
  "getLatestCandleTime a w =
     (case map (\<lambda>e. snd (fst e)) (filter (\<lambda>e. fst (fst e) = a) (DAList.impl_of (candles w))) of
        [] \<Rightarrow> None
      | t # ts \<Rightarrow> Some (fold max ts t))"

section \<open>services/backfillQueue.js\<close>

text \<open>
  Source: \<open>src/services/reports.js\<close>, from line 137. The clock is read once for each
  operation and passed in as \<open>now\<close>. The queue documents are written reliably; the one
  rejection modelled inside the \<open>try\<close> of \<open>processItem\<close> is the registry lookup
  of step 4.
\<close>

definition MAX_ATTEMPTS :: nat where
  "MAX_ATTEMPTS = 5"

definition RETRY_AFTER_MS :: int where
  "RETRY_AFTER_MS = 2 * 60 * 1000"

definition GAP_THRESHOLD_MS :: int where
  "GAP_THRESHOLD_MS = 60 * 1000"

definition init :: "world \<Rightarrow> world" where
  "init w = w\<lparr>initialised := True\<rparr>"

text \<open>The object handed to \<open>enqueue\<close>.\<close>

record enq =
  e_address :: address
  e_symbol :: "string option"
  e_name :: "string option"
  e_poolAddress :: "string option"

text \<open>\<open>updateOne\<close> with \<open>upsert\<close> and only \<open>$setOnInsert\<close>: a present entry is left alone.\<close>

definition enqueue :: "date \<Rightarrow> enq \<Rightarrow> world \<Rightarrow> world" where
  "enqueue now tok w =
     (case DAList.lookup (queue w) (e_address tok) of
        Some _ \<Rightarrow> w
      | None \<Rightarrow>
          w\<lparr>queue := DAList.update (e_address tok)
               \<lparr>q_symbol = or_empty (e_symbol tok),
                q_name = or_empty (e_name tok),
                q_poolAddress = or_null (e_poolAddress tok),
                q_status = Pending,
                q_attempts = 0,
                q_lastAttempt = None,
                q_error = None,
                q_enqueuedAt = now,
                q_completedAt = None\<rparr> (queue w)\<rparr>)"

definition remove :: "address \<Rightarrow> world \<Rightarrow> world" where
  "remove a w = w\<lparr>queue := DAList.delete a (queue w)\<rparr>"

text \<open>
  An item of a drain is the address with the document as \<open>find\<close> read it; the
  attempt count that \<open>maybeMarkFailed\<close> looks at is the one of that reading.
\<close>

definition maybeMarkFailed :: "address \<times> task \<Rightarrow> world \<Rightarrow> world" where
  "maybeMarkFailed item w =
     (let currentAttempts = q_attempts (snd item) + 1 in
      if currentAttempts \<ge> MAX_ATTEMPTS
      then w\<lparr>queue := updateOne (fst item)
                (\<lambda>t. t\<lparr>q_status := Failed, q_error := Some ''Exhausted 5 attempts''\<rparr>) (queue w)\<rparr>
      else w)"

definition register_live :: "address \<times> task \<Rightarrow> string \<Rightarrow> world \<Rightarrow> world" where
  "register_live item pool w =
     w\<lparr>manager := addToken (fst item)
          \<lparr>m_symbol = Some (q_symbol (snd item)), m_name = Some (q_name (snd item)),
           m_poolAddress = Some pool,
           m_launchedAt = (case DAList.lookup (tokens w) (fst item) of
                             None \<Rightarrow> None | Some d \<Rightarrow> t_launchedAt d)\<rparr> (manager w),
        trackedMints := set_add (fst item) (trackedMints w)\<rparr>"

text \<open>Steps 2 to 5 of \<open>processItem\<close>, once a pool is known.\<close>

definition fetch_and_finish :: "env \<Rightarrow> date \<Rightarrow> address \<times> task \<Rightarrow> string \<Rightarrow> world \<Rightarrow> world" where
  "fetch_and_finish e now item pool w =
     (let cs = getBackfillData e (Some pool) 300 in
      if cs = [] then maybeMarkFailed item w
      else
        let w2 = backfillCandles (fst item) (Some pool) cs w in
        if initialised w2 \<and> DAList.lookup (tracked (manager w2)) (fst item) = None
        then
          (if tokenFindThrows e (fst item) then maybeMarkFailed item w2
           else
             (register_live item pool w2)\<lparr>queue := updateOne (fst item)
                 (\<lambda>t. t\<lparr>q_status := Done, q_completedAt := Some now, q_error := None\<rparr>)
                 (queue w2)\<rparr>)
        else
          w2\<lparr>queue := updateOne (fst item)
                (\<lambda>t. t\<lparr>q_status := Done, q_completedAt := Some now, q_error := None\<rparr>)
                (queue w2)\<rparr>)"

definition processItem :: "env \<Rightarrow> date \<Rightarrow> address \<times> task \<Rightarrow> world \<Rightarrow> world" where
  "processItem e now item w =
     (let w1 = w\<lparr>queue := updateOne (fst item)
                  (\<lambda>t. t\<lparr>q_lastAttempt := Some now, q_attempts := q_attempts t + 1\<rparr>) (queue w)\<rparr>
      in
      case or_null (q_poolAddress (snd item)) of
        Some pool \<Rightarrow> fetch_and_finish e now item pool w1
      | None \<Rightarrow>
          (case resolvePoolAddress e (fst item) of
             None \<Rightarrow> maybeMarkFailed item w1
           | Some pool \<Rightarrow>
               fetch_and_finish e now item pool
                 (w1\<lparr>queue := updateOne (fst item) (\<lambda>t. t\<lparr>q_poolAddress := Some pool\<rparr>) (queue w1),
                     tokens := updateOne (fst item) (\<lambda>d. d\<lparr>t_poolAddress := Some pool\<rparr>) (tokens w1)\<rparr>)))"

text \<open>
  The query of \<open>drain\<close>: pending entries never tried or last tried before the cooldown,
  by attempts and then by age, cut to the batch size (\<open>limit(0)\<close> is no limit).
\<close>

definition due :: "date \<Rightarrow> address \<times> task \<Rightarrow> bool" where
  "due retryBefore item =
     (q_status (snd item) = Pending \<and>
      (case q_lastAttempt (snd item) of None \<Rightarrow> True | Some t \<Rightarrow> t < retryBefore))"

definition limit :: "nat \<Rightarrow> 'a list \<Rightarrow> 'a list" where
  "limit n xs = (if n = 0 then xs else take n xs)"

definition find_due :: "date \<Rightarrow> nat \<Rightarrow> world \<Rightarrow> (address \<times> task) list" where
  "find_due now batchSize w =
     limit batchSize
       (sort_key (\<lambda>item. (q_attempts (snd item), q_enqueuedAt (snd item)))
          (filter (due (now - RETRY_AFTER_MS)) (DAList.impl_of (queue w))))"

definition drain :: "env \<Rightarrow> date \<Rightarrow> nat \<Rightarrow> world \<Rightarrow> world" where
  "drain e now batchSize w =
     (if draining w then w
      else
        let items = find_due now batchSize w in
        if items = [] then w\<lparr>draining := False\<rparr>
        else (fold (processItem e now) items (w\<lparr>draining := True\<rparr>))\<lparr>draining := False\<rparr>)"

definition audit_token :: "date \<Rightarrow> address \<times> token \<Rightarrow> world \<Rightarrow> world" where
  "audit_token now t w =
     (if countDocuments (fst t) (candles w) = 0
      then enqueue now \<lparr>e_address = fst t, e_symbol = t_symbol (snd t), e_name = t_name (snd t),
                         e_poolAddress = t_poolAddress (snd t)\<rparr> w
      else w)"

definition auditAndEnqueueMissing :: "date \<Rightarrow> world \<Rightarrow> world" where
  "auditAndEnqueueMissing now w = fold (audit_token now) (DAList.impl_of (tokens w)) w"

definition gap_token :: "env \<Rightarrow> date \<Rightarrow> address \<times> token \<Rightarrow> world \<Rightarrow> world" where
  "gap_token e now t w =
     (case getLatestCandleTime (fst t) w of
        None \<Rightarrow> w
      | Some latest \<Rightarrow>
          if now - latest < GAP_THRESHOLD_MS then w
          else
            let cs = getBackfillData e (t_poolAddress (snd t)) 300 in
            if length cs > 0 then backfillCandles (fst t) (t_poolAddress (snd t)) cs w else w)"

definition gapFillOnStartup :: "env \<Rightarrow> date \<Rightarrow> world \<Rightarrow> world" where
  "gapFillOnStartup e now w =
     fold (gap_token e now)
       (filter (\<lambda>t. t_isActive (snd t) \<and> t_poolAddress (snd t) \<noteq> None) (DAList.impl_of (tokens w))) w"

text \<open>
  When an attempt on an item fails: no pool is known or found, the provider returns no
  candles, or the registry lookup of step 4 rejects. These are the three paths of
  \<open>processItem\<close> that end in \<open>maybeMarkFailed\<close>.
\<close>

definition pool_for :: "env \<Rightarrow> address \<times> task \<Rightarrow> string option" where
  "pool_for e item =
     (case or_null (q_poolAddress (snd item)) of
        Some p \<Rightarrow> Some p
      | None \<Rightarrow> resolvePoolAddress e (fst item))"

definition attempt_fails :: "env \<Rightarrow> world \<Rightarrow> address \<times> task \<Rightarrow> bool" where
  "attempt_fails e w item =
     (case pool_for e item of
        None \<Rightarrow> True
      | Some pool \<Rightarrow>
          getBackfillData e (Some pool) 300 = [] \<or>
          (initialised w \<and> DAList.lookup (tracked (manager w)) (fst item) = None \<and>
           tokenFindThrows e (fst item)))"

text \<open>
  Repeated attempts on one address, each on the entry as it then stands in the queue, as
  successive drains make them; and the condition that every one of them fails.
\<close>

fun process_run :: "(env \<times> date) list \<Rightarrow> address \<Rightarrow> world \<Rightarrow> world" where
  "process_run [] a w = w"
| "process_run (r # rs) a w =
     (case DAList.lookup (queue w) a of
        None \<Rightarrow> w
      | Some t \<Rightarrow>
          if q_status t = Pending then process_run rs a (processItem (fst r) (snd r) (a, t) w)
          else w)"

fun all_fail :: "(env \<times> date) list \<Rightarrow> address \<Rightarrow> world \<Rightarrow> bool" where
  "all_fail [] a w = True"
| "all_fail (r # rs) a w =
     (case DAList.lookup (queue w) a of
        None \<Rightarrow> False
      | Some t \<Rightarrow>
          attempt_fails (fst r) w (a, t) \<and> all_fail rs a (processItem (fst r) (snd r) (a, t) w))"

text \<open>A sequence of drains, each with its own environment, clock reading and batch size.\<close>

fun drains :: "(env \<times> date \<times> nat) list \<Rightarrow> world \<Rightarrow> world" where
  "drains [] w = w"
| "drains (d # ds) w = drains ds (drain (fst d) (fst (snd d)) (snd (snd d)) w)"

text \<open>
  The states of the system between two operations, from an empty queue: entries are
  enqueued, removed, drained and audited, and the other components change freely.
\<close>

inductive reachable :: "world \<Rightarrow> bool" where
  start: "queue w = DAList.empty \<Longrightarrow> \<not> draining w \<Longrightarrow> reachable w"
| enqueued: "reachable w \<Longrightarrow> reachable (enqueue now tok w)"
| removed: "reachable w \<Longrightarrow> reachable (remove a w)"
| drained: "reachable w \<Longrightarrow> reachable (drain e now n w)"
| audited: "reachable w \<Longrightarrow> reachable (auditAndEnqueueMissing now w)"
| gap_filled: "reachable w \<Longrightarrow> reachable (gapFillOnStartup e now w)"
| elsewhere: "reachable w \<Longrightarrow>
     reachable (w\<lparr>tokens := ts, candles := cs, manager := m, initialised := i, trackedMints := tm\<rparr>)"

definition queue_ok :: "world \<Rightarrow> bool" where
  "queue_ok w =
     (\<forall>a t. DAList.lookup (queue w) a = Some t \<longrightarrow> q_status t = Pending
        \<longrightarrow> q_attempts t < MAX_ATTEMPTS)"

text \<open>Concrete states and environments for the scenarios.\<close>

definition fresh_world :: world where
  "fresh_world =
     \<lparr>queue = DAList.empty, tokens = DAList.empty, candles = DAList.empty,
      manager = constructor, initialised = False, trackedMints = [], draining = False\<rparr>"

text \<open>A provider that lists no pool and no candle.\<close>

definition offline :: env where
  "offline = \<lparr>gecko_pool = (\<lambda>a. None), gecko_ohlcv = (\<lambda>p n. []), tokenFindThrows = (\<lambda>a. False)\<rparr>"

definition tkn :: enq where
  "tkn = \<lparr>e_address = ''T'', e_symbol = Some ''TKN'', e_name = Some ''Token'', e_poolAddress = None\<rparr>"

text \<open>
  A registry holding one active token without candles, whose queue entry has used up its
  five attempts.
\<close>

definition exhausted_world :: world where
  "exhausted_world =
     fresh_world
       \<lparr>queue := DAList.update ''T''
           \<lparr>q_symbol = ''TKN'', q_name = ''Token'', q_poolAddress = None, q_status = Failed,
            q_attempts = 5, q_lastAttempt = Some 5000, q_error = Some ''Exhausted 5 attempts'',
            q_enqueuedAt = 1000, q_completedAt = None\<rparr> DAList.empty,
        tokens := DAList.update ''T''
           \<lparr>t_symbol = Some ''TKN'', t_name = Some ''Token'', t_poolAddress = None,
            t_launchedAt = None, t_isActive = True\<rparr> DAList.empty\<rparr>"

text \<open>The same registry token without candles, with no queue entry at all.\<close>

definition unqueued_world :: world where
  "unqueued_world = exhausted_world\<lparr>queue := DAList.empty\<rparr>"

text \<open>
  For the gap fill: whether a token's latest candle is old enough to refetch, and whether
  the store already holds every candle the provider lists for it.
\<close>

definition gap_due :: "date \<Rightarrow> address \<Rightarrow> world \<Rightarrow> bool" where
  "gap_due now a w =
     (case getLatestCandleTime a w of
        None \<Rightarrow> False
      | Some latest \<Rightarrow> \<not> now - latest < GAP_THRESHOLD_MS)"

definition quiet :: "env \<Rightarrow> date \<Rightarrow> address \<times> token \<Rightarrow> world \<Rightarrow> bool" where
  "quiet e now t w =
     (\<not> gap_due now (fst t) w \<or>
      (\<forall>c \<in> set (getBackfillData e (t_poolAddress (snd t)) 300).
          DAList.lookup (candles w) (fst t, o_timestamp c) \<noteq> None))"

text \<open>
  A store holding one candle of token \<open>T\<close> at minute one, and a provider that lists that
  minute and the next for the token's pool.
\<close>

definition bar :: "date \<Rightarrow> ohlcv" where
  "bar ts = \<lparr>o_timestamp = ts, o_open = 1, o_high = 2, o_low = 1, o_close = 2, o_volume = 10\<rparr>"

definition listing :: env where
  "listing = \<lparr>gecko_pool = (\<lambda>a. Some ''P''),
              gecko_ohlcv = (\<lambda>p n. if p = ''P'' then [bar 60000, bar 120000] else []),
              tokenFindThrows = (\<lambda>a. False)\<rparr>"

definition gap_world :: world where
  "gap_world =
     backfillCandles ''T'' (Some ''P'') [bar 60000]
       (fresh_world\<lparr>tokens := DAList.update ''T''
           \<lparr>t_symbol = Some ''TKN'', t_name = Some ''Token'', t_poolAddress = Some ''P'',
            t_launchedAt = None, t_isActive = True\<rparr> DAList.empty\<rparr>)"


section \<open>services/moralis.js and the discovery loop of index.js\<close>

text \<open>
  Sources: \<open>src/unnamed/part_003\<close> (\<open>moralis.js\<close>) and
  \<open>src/scripts/analyze_all_tokens.js\<close>, from line 150 (\<open>index.js\<close>).
  A discovered token as \<open>fetchFromExchange\<close> shapes it; an address that is missing
  counts as the empty string, which is falsy as well. The discovery environment adds to
  the provider answers the feed of the one configured exchange and the market-cap map.
\<close>

record found =
  f_address :: address
  f_symbol :: string
  f_name :: string
  f_createdAt :: "date option"

record denv = env +
  exchange_feed :: "nat \<Rightarrow> found list"
  marketCap :: "address \<Rightarrow> real option"

definition MAX_SEEN :: nat where
  "MAX_SEEN = 5000"

text \<open>\<open>getMigratedTokens\<close>: the feed without falsy and repeated addresses.\<close>

fun dedup_feed :: "found list \<Rightarrow> address list \<Rightarrow> found list" where
  "dedup_feed [] seen = []"
| "dedup_feed (t # ts) seen =
     (if f_address t \<noteq> [] \<and> f_address t \<notin> set seen
      then t # dedup_feed ts (set_add (f_address t) seen)
      else dedup_feed ts seen)"

definition getMigratedTokens :: "denv \<Rightarrow> nat \<Rightarrow> found list" where
  "getMigratedTokens e k = dedup_feed (exchange_feed e k) []"

text \<open>
  The upsert of the registry document: symbol, name, pool and the active flag are set,
  the launch date only when the document is created.
\<close>

definition upsert_token :: "date \<Rightarrow> found \<Rightarrow> string option \<Rightarrow> world \<Rightarrow> world" where
  "upsert_token now t pool w =
     w\<lparr>tokens :=
         (case DAList.lookup (tokens w) (f_address t) of
            Some d \<Rightarrow>
              DAList.update (f_address t)
                (d\<lparr>t_symbol := Some (f_symbol t), t_name := Some (f_name t),
                   t_poolAddress := pool, t_isActive := True\<rparr>) (tokens w)
          | None \<Rightarrow>
              DAList.update (f_address t)
                \<lparr>t_symbol = Some (f_symbol t), t_name = Some (f_name t), t_poolAddress = pool,
                 t_launchedAt = Some (case f_createdAt t of None \<Rightarrow> now | Some c \<Rightarrow> c),
                 t_isActive = True\<rparr> (tokens w))\<rparr>"

text \<open>
  The market-cap filter marks a token below 2000 as seen and drops it; it is a
  \<open>filter\<close> whose callback writes to the seen set.
\<close>

fun mc_filter :: "denv \<Rightarrow> found list \<Rightarrow> address list \<Rightarrow> address list \<times> found list" where
  "mc_filter e [] seen = (seen, [])"
| "mc_filter e (t # ts) seen =
     (case marketCap e (f_address t) of
        None \<Rightarrow> (fst (mc_filter e ts seen), t # snd (mc_filter e ts seen))
      | Some mc \<Rightarrow>
          if mc < 2000
          then mc_filter e ts (set_add (f_address t) seen)
          else (fst (mc_filter e ts seen), t # snd (mc_filter e ts seen)))"

text \<open>The body of the loop over the live tokens.\<close>

definition discover_token ::
  "denv \<Rightarrow> date \<Rightarrow> found \<Rightarrow> address list \<times> world \<Rightarrow> address list \<times> world" where
  "discover_token e now t st =
     (let seen = set_add (f_address t) (fst st);
          w = snd st;
          launched = (case f_createdAt t of None \<Rightarrow> now | Some c \<Rightarrow> c)
      in
      case resolvePoolAddress (env.truncate e) (f_address t) of
        None \<Rightarrow>
          (seen,
           enqueue now \<lparr>e_address = f_address t, e_symbol = Some (f_symbol t),
                        e_name = Some (f_name t), e_poolAddress = None\<rparr>
             (upsert_token now t None w))
      | Some pool \<Rightarrow>
          let cs = getBackfillData (env.truncate e) (Some pool) 300;
              w1 = (if cs = []
                    then enqueue now \<lparr>e_address = f_address t, e_symbol = Some (f_symbol t),
                                     e_name = Some (f_name t), e_poolAddress = Some pool\<rparr>
                           (upsert_token now t (Some pool) w)
                    else upsert_token now t (Some pool)
                           (backfillCandles (f_address t) (Some pool) cs w))
          in
          (seen,
           w1\<lparr>manager := addToken (f_address t)
                  \<lparr>m_symbol = Some (f_symbol t), m_name = Some (f_name t),
                   m_poolAddress = Some pool, m_launchedAt = Some launched\<rparr> (manager w1),
               trackedMints := set_add (f_address t) (trackedMints w1)\<rparr>))"

text \<open>
  One discovery cycle on the seen set and the services. The size check and the reset come
  first, before the feed is read.
\<close>

definition discoveryLoop :: "denv \<Rightarrow> date \<Rightarrow> address list \<times> world \<Rightarrow> address list \<times> world" where
  "discoveryLoop e now st =
     (let seen1 = (if length (fst st) > MAX_SEEN then [] else fst st);
          w = snd st;
          found_tokens = getMigratedTokens e 20
      in
      if found_tokens = [] then (seen1, w)
      else
        let addresses = filter (\<lambda>a. a \<noteq> []) (map f_address found_tokens);
            notSeenYet = filter (\<lambda>a. a \<notin> set seen1) addresses
        in
        if notSeenYet = [] then (seen1, w)
        else
          let existing = filter (\<lambda>d. fst d \<in> set notSeenYet) (DAList.impl_of (tokens w));
              activeSet = map fst (filter (\<lambda>d. t_isActive (snd d)) existing);
              processTokens = filter (\<lambda>t. f_address t \<noteq> [] \<and> f_address t \<notin> set seen1
                                            \<and> f_address t \<notin> set activeSet) found_tokens
          in
          if processTokens = [] then (seen1, w)
          else
            let r = mc_filter e processTokens seen1;
                seen2 = fst r;
                liveTokens = snd r
            in
            if liveTokens = [] then (seen2, w)
            else fold (discover_token e now) liveTokens (seen2, w))"

text \<open>A run of discovery cycles, each with its own answers from outside.\<close>

fun discovery_run :: "(denv \<times> date) list \<Rightarrow> address list \<times> world \<Rightarrow> address list \<times> world" where
  "discovery_run [] st = st"
| "discovery_run (c # cs) st = discovery_run cs (discoveryLoop (fst c) (snd c) st)"

text \<open>A feed of two new tokens, one of them nearly worthless, with the provider offline.\<close>

definition feed2 :: denv where
  "feed2 = env.extend offline
     \<lparr>exchange_feed = (\<lambda>n. [\<lparr>f_address = ''A'', f_symbol = ''AAA'', f_name = ''Alpha'', f_createdAt = None\<rparr>,
                             \<lparr>f_address = ''B'', f_symbol = ''BBB'', f_name = ''Beta'', f_createdAt = None\<rparr>]),
      marketCap = (\<lambda>a. if a = ''B'' then Some 100 else None)\<rparr>"

text \<open>The seen set as the size check leaves it, and a seen set one past the cap.\<close>

definition after_check :: "address list \<Rightarrow> address list" where
  "after_check seen = (if length seen > MAX_SEEN then [] else seen)"

definition big_seen :: "address list" where
  "big_seen = map (\<lambda>n. replicate n CHR ''x'') [1..<5002]"


section \<open>Candle aggregation: what a period's samples leave in the candle\<close>

lemma addTrade_valid_null:
  assumes "DAList.lookup (tracked cm) a \<noteq> None" "valid_price (fst s)"
    "DAList.lookup (buffers cm) a = Some None"
  shows "\<exists>cm'. addTrade a (fst s) (snd s) cm = (None, cm') \<and> tracked cm' = tracked cm
     \<and> DAList.lookup (buffers cm') a = Some (Some (opened s))"
  using assms
  by (cases "fst s")
     (auto simp: addTrade_def valid_price_def isNaN_def js_le0_def opened_def price_of_def Let_def)

lemma addTrade_valid_Some:
  assumes "DAList.lookup (tracked cm) a \<noteq> None" "valid_price (fst s)"
    "DAList.lookup (buffers cm) a = Some (Some buf)"
  shows "\<exists>cm'. addTrade a (fst s) (snd s) cm = (None, cm') \<and> tracked cm' = tracked cm
     \<and> DAList.lookup (buffers cm') a = Some (Some (fed buf [s]))"
  using assms
  by (cases "fst s")
     (auto simp: addTrade_def valid_price_def isNaN_def js_le0_def fed_def price_of_def Let_def)

lemma addTrades_fed:
  assumes "DAList.lookup (tracked cm) a \<noteq> None" "\<forall>s \<in> set ss. valid_price (fst s)"
    "DAList.lookup (buffers cm) a = Some (Some buf)"
  shows "\<exists>cm'. addTrades a ss cm = (None, cm') \<and> tracked cm' = tracked cm
     \<and> DAList.lookup (buffers cm') a = Some (Some (fed buf ss))"
  using assms
proof (induction ss arbitrary: cm buf)
  case Nil
  then show ?case by (simp add: fed_def)
next
  case (Cons s ss)
  from addTrade_valid_Some[of cm a s buf] Cons.prems
  obtain cm1 where 1: "addTrade a (fst s) (snd s) cm = (None, cm1)" "tracked cm1 = tracked cm"
    "DAList.lookup (buffers cm1) a = Some (Some (fed buf [s]))" by auto
  from Cons.IH[of cm1 "fed buf [s]"] 1 Cons.prems
  obtain cm' where 2: "addTrades a ss cm1 = (None, cm')" "tracked cm' = tracked cm1"
     "DAList.lookup (buffers cm') a = Some (Some (fed (fed buf [s]) ss))" by auto
  have "fed (fed buf [s]) ss = fed buf (s # ss)" by (simp add: fed_def)
  with 1 2 show ?case by simp
qed

lemma addTrades_period:
  assumes "DAList.lookup (tracked cm) a \<noteq> None" "\<forall>s \<in> set (s # ss). valid_price (fst s)"
    "DAList.lookup (buffers cm) a = Some None"
  shows "\<exists>cm'. addTrades a (s # ss) cm = (None, cm') \<and> tracked cm' = tracked cm
     \<and> DAList.lookup (buffers cm') a = Some (Some (fed (opened s) ss))"
proof -
  from addTrade_valid_null[of cm a s] assms
  obtain cm1 where 1: "addTrade a (fst s) (snd s) cm = (None, cm1)" "tracked cm1 = tracked cm"
    "DAList.lookup (buffers cm1) a = Some (Some (opened s))" by auto
  from addTrades_fed[of cm1 a ss "opened s"] 1 assms
  obtain cm' where "addTrades a ss cm1 = (None, cm')" "tracked cm' = tracked cm1"
    "DAList.lookup (buffers cm') a = Some (Some (fed (opened s) ss))" by auto
  with 1 show ?thesis by simp
qed

lemma fed_opened_fields:
  "b_open (fed (opened s) ss) = price_of (hd (s # ss))"
  "b_close (fed (opened s) ss) = price_of (last (s # ss))"
  "b_high (fed (opened s) ss) = Max (price_of ` set (s # ss))"
  "b_low (fed (opened s) ss) = Min (price_of ` set (s # ss))"
  "b_volume (fed (opened s) ss) = sum_list (map (js_or0 \<circ> snd) (s # ss))"
  "b_tradeCount (fed (opened s) ss) = length (s # ss)"
proof -
  have "Max (set (price_of s # map price_of ss)) = fold max (map price_of ss) (price_of s)"
    by (rule Max.set_eq_fold)
  then show "b_high (fed (opened s) ss) = Max (price_of ` set (s # ss))"
    by (simp add: fed_def opened_def)
  have "Min (set (price_of s # map price_of ss)) = fold min (map price_of ss) (price_of s)"
    by (rule Min.set_eq_fold)
  then show "b_low (fed (opened s) ss) = Min (price_of ` set (s # ss))"
    by (simp add: fed_def opened_def)
  show "b_close (fed (opened s) ss) = price_of (last (s # ss))"
    by (simp add: fed_def opened_def last_map)
qed (simp_all add: fed_def opened_def)

lemma fold_close_entry:
  "fold (close_entry ts) es (out, cm) =
     (out @ map (\<lambda>e. mk_candle ts (meta_of cm (fst e)) (fst e) (the (snd e)))
              (filter (\<lambda>e. snd e \<noteq> None) es),
      cm\<lparr>buffers := fold closing es (buffers cm)\<rparr>)"
proof (induction es arbitrary: out cm)
  case Nil
  then show ?case by simp
next
  case (Cons e es)
  show ?case
  proof (cases "snd e")
    case None
    then show ?thesis using Cons.IH[of out cm] by (simp add: close_entry_def closing_def)
  next
    case (Some buf)
    then show ?thesis
      using Cons.IH[of "out @ [mk_candle ts (meta_of cm (fst e)) (fst e) buf]"
          "cm\<lparr>buffers := DAList.update (fst e) None (buffers cm)\<rparr>"]
      by (simp add: close_entry_def closing_def meta_of_def)
  qed
qed

lemma fold_closing_keep:
  "DAList.lookup B a = Some None \<Longrightarrow> DAList.lookup (fold closing es B) a = Some None"
proof (induction es arbitrary: B)
  case Nil then show ?case by simp
next
  case (Cons e es)
  have "DAList.lookup (closing e B) a = Some None"
    using Cons.prems by (cases "fst e = a") (auto simp: closing_def split: option.splits)
  then show ?case using Cons.IH by simp
qed

lemma fold_closing_reset:
  "(a, Some b) \<in> set es \<Longrightarrow> DAList.lookup (fold closing es B) a = Some None"
proof (induction es arbitrary: B)
  case Nil then show ?case by simp
next
  case (Cons e es)
  show ?case
  proof (cases "e = (a, Some b)")
    case True
    then have "DAList.lookup (closing e B) a = Some None" by (simp add: closing_def)
    then show ?thesis using fold_closing_keep by simp
  next
    case False
    then show ?thesis using Cons by simp
  qed
qed

lemma filter_key_distinct:
  "distinct (map fst es) \<Longrightarrow> map_of es a = Some v \<Longrightarrow> filter (\<lambda>e. fst e = a) es = [(a, v)]"
proof (induction es)
  case Nil then show ?case by simp
next
  case (Cons e es)
  show ?case
  proof (cases "fst e = a")
    case True
    with Cons.prems have "e = (a, v)" by (cases e) auto
    moreover have "filter (\<lambda>e. fst e = a) es = []"
      using Cons.prems True by (force simp: filter_empty_conv image_iff)
    ultimately show ?thesis by simp
  next
    case False
    then show ?thesis using Cons by auto
  qed
qed

lemma emitted_for:
  assumes "DAList.lookup (buffers cm) a = Some (Some buf)"
  shows "filter (\<lambda>c. tokenAddress c = a) (fst (closeCandlesFor ts cm))
           = [mk_candle ts (meta_of cm a) a buf]"
    and "DAList.lookup (buffers (snd (closeCandlesFor ts cm))) a = Some None"
proof -
  let ?es = "DAList.impl_of (buffers cm)"
  have m: "map_of ?es a = Some (Some buf)" using assms by (simp add: DAList.lookup.rep_eq)
  have d: "distinct (map fst ?es)" by simp
  have f: "filter (\<lambda>e. fst e = a) ?es = [(a, Some buf)]" using filter_key_distinct[OF d m] .
  have "filter (\<lambda>c. tokenAddress c = a)
          (map (\<lambda>e. mk_candle ts (meta_of cm (fst e)) (fst e) (the (snd e)))
               (filter (\<lambda>e. snd e \<noteq> None) ?es))
       = map (\<lambda>e. mk_candle ts (meta_of cm (fst e)) (fst e) (the (snd e)))
           (filter (\<lambda>e. snd e \<noteq> None) (filter (\<lambda>e. fst e = a) ?es))"
    by (simp add: filter_map o_def mk_candle_def conj_commute)
  also have "\<dots> = [mk_candle ts (meta_of cm a) a buf]" by (simp add: f)
  finally show "filter (\<lambda>c. tokenAddress c = a) (fst (closeCandlesFor ts cm))
                  = [mk_candle ts (meta_of cm a) a buf]"
    by (simp add: closeCandlesFor_def fold_close_entry)
  have "(a, Some buf) \<in> set ?es" using m by (rule map_of_SomeD)
  then show "DAList.lookup (buffers (snd (closeCandlesFor ts cm))) a = Some None"
    by (simp add: closeCandlesFor_def fold_close_entry fold_closing_reset)
qed

text \<open>
  Claim C1, as the code has it. For a tracked token whose buffer is empty at the start of
  the period, and a non-empty run of samples with valid prices: no sample raises; closing
  the period emits exactly one candle for the token; its open is the first price, its close
  the last, its high and low the maximum and minimum price, its sample count the number of
  samples; its volume is the sum of the sample volumes in which a volume that is \<open>NaN\<close>
  (or missing) counts as zero, because the code adds \<open>volume || 0\<close>; and the token's
  buffer is empty again afterwards.
\<close>

theorem closed_candle_of_period:
  assumes "DAList.lookup (tracked cm) a \<noteq> None"
    and "DAList.lookup (buffers cm) a = Some None"
    and "samples \<noteq> []"
    and "\<forall>s \<in> set samples. valid_price (fst s)"
  shows "\<exists>cm1 c. addTrades a samples cm = (None, cm1)
      \<and> filter (\<lambda>c. tokenAddress c = a) (fst (closeCandlesFor ts cm1)) = [c]
      \<and> timestamp c = ts
      \<and> c_open c = price_of (hd samples)
      \<and> c_close c = price_of (last samples)
      \<and> c_high c = Max (price_of ` set samples)
      \<and> c_low c = Min (price_of ` set samples)
      \<and> c_volume c = sum_list (map (js_or0 \<circ> snd) samples)
      \<and> tradeCount c = length samples
      \<and> DAList.lookup (buffers (snd (closeCandlesFor ts cm1))) a = Some None"
proof -
  from assms(3) obtain s ss where ss: "samples = s # ss" by (cases samples) auto
  from addTrades_period[of cm a s ss] assms ss
  obtain cm1 where 1: "addTrades a samples cm = (None, cm1)"
    "DAList.lookup (buffers cm1) a = Some (Some (fed (opened s) ss))" by auto
  let ?c = "mk_candle ts (meta_of cm1 a) a (fed (opened s) ss)"
  have 2: "filter (\<lambda>c. tokenAddress c = a) (fst (closeCandlesFor ts cm1)) = [?c]"
    and 3: "DAList.lookup (buffers (snd (closeCandlesFor ts cm1))) a = Some None"
    using emitted_for[OF 1(2)] by auto
  have 4: "timestamp ?c = ts" "c_open ?c = price_of (hd samples)"
    "c_close ?c = price_of (last samples)"
    "c_high ?c = Max (price_of ` set samples)"
    "c_low ?c = Min (price_of ` set samples)"
    "c_volume ?c = sum_list (map (js_or0 \<circ> snd) samples)"
    "tradeCount ?c = length samples"
    unfolding ss mk_candle_def using fed_opened_fields[of s ss] by simp_all
  show ?thesis using 1(1) 2 3 4 by blast
qed

theorem closed_candle_of_period_witness:
  "DAList.lookup (tracked (addToken ''T'' empty_meta constructor)) ''T'' \<noteq> None
   \<and> DAList.lookup (buffers (addToken ''T'' empty_meta constructor)) ''T'' = Some None
   \<and> valid_price (Num 2) \<and> valid_price (Num 3) \<and> valid_price (Num 1)
   \<and> fst (addTrades ''T'' [(Num 2, Num 5), (Num 3, NaN), (Num 1, Num 4)]
            (addToken ''T'' empty_meta constructor)) = None
   \<and> map c_open (filter (\<lambda>c. tokenAddress c = ''T'') (fst (closeCandlesFor 15000
        (snd (addTrades ''T'' [(Num 2, Num 5), (Num 3, NaN), (Num 1, Num 4)]
            (addToken ''T'' empty_meta constructor)))))) = [2]
   \<and> map c_high (filter (\<lambda>c. tokenAddress c = ''T'') (fst (closeCandlesFor 15000
        (snd (addTrades ''T'' [(Num 2, Num 5), (Num 3, NaN), (Num 1, Num 4)]
            (addToken ''T'' empty_meta constructor)))))) = [3]
   \<and> map c_low (filter (\<lambda>c. tokenAddress c = ''T'') (fst (closeCandlesFor 15000
        (snd (addTrades ''T'' [(Num 2, Num 5), (Num 3, NaN), (Num 1, Num 4)]
            (addToken ''T'' empty_meta constructor)))))) = [1]
   \<and> map c_close (filter (\<lambda>c. tokenAddress c = ''T'') (fst (closeCandlesFor 15000
        (snd (addTrades ''T'' [(Num 2, Num 5), (Num 3, NaN), (Num 1, Num 4)]
            (addToken ''T'' empty_meta constructor)))))) = [1]
   \<and> map c_volume (filter (\<lambda>c. tokenAddress c = ''T'') (fst (closeCandlesFor 15000
        (snd (addTrades ''T'' [(Num 2, Num 5), (Num 3, NaN), (Num 1, Num 4)]
            (addToken ''T'' empty_meta constructor)))))) = [9]
   \<and> DAList.lookup (buffers (snd (closeCandlesFor 15000
        (snd (addTrades ''T'' [(Num 2, Num 5), (Num 3, NaN), (Num 1, Num 4)]
            (addToken ''T'' empty_meta constructor)))))) ''T'' = Some None"
proof -
  let ?cm = "addToken ''T'' empty_meta constructor"
  let ?ss = "[(Num 2, Num 5), (Num 3, NaN), (Num 1, Num 4)]"
  have h1: "DAList.lookup (tracked ?cm) ''T'' \<noteq> None"
    and h2: "DAList.lookup (buffers ?cm) ''T'' = Some None"
    by (simp_all add: addToken_def constructor_def)
  have h3: "?ss \<noteq> []" by simp
  have v: "valid_price (Num 2)" "valid_price (Num 3)" "valid_price (Num 1)"
    by (simp_all add: valid_price_def isNaN_def js_le0_def)
  then have h4: "\<forall>s \<in> set ?ss. valid_price (fst s)" by simp
  from closed_candle_of_period[OF h1 h2 h3 h4, of 15000]
  obtain cm1 c where r: "addTrades ''T'' ?ss ?cm = (None, cm1)"
    "filter (\<lambda>c. tokenAddress c = ''T'') (fst (closeCandlesFor 15000 cm1)) = [c]"
    "c_open c = price_of (hd ?ss)" "c_close c = price_of (last ?ss)"
    "c_high c = Max (price_of ` set ?ss)" "c_low c = Min (price_of ` set ?ss)"
    "c_volume c = sum_list (map (js_or0 \<circ> snd) ?ss)"
    "DAList.lookup (buffers (snd (closeCandlesFor 15000 cm1))) ''T'' = Some None"
    by blast
  have e: "price_of (hd ?ss) = 2" "price_of (last ?ss) = 1" "Max (price_of ` set ?ss) = 3"
    "Min (price_of ` set ?ss) = 1" "sum_list (map (js_or0 \<circ> snd) ?ss) = 9"
    by (simp_all add: price_of_def js_or0_def)
  show ?thesis using h1 h2 v r e by simp
qed

text \<open>
  Claim C1 as it is written takes the plain sum of the sample volumes. One valid sample
  whose volume is \<open>NaN\<close> closes into a candle of volume \<open>0\<close>, while the sum of
  the sample volumes is \<open>NaN\<close>.
\<close>

theorem volume_sum_counterexample:
  "DAList.lookup (tracked (addToken ''T'' empty_meta constructor)) ''T'' \<noteq> None
   \<and> DAList.lookup (buffers (addToken ''T'' empty_meta constructor)) ''T'' = Some None
   \<and> valid_price (Num 1)
   \<and> map c_volume (fst (closeCandlesFor 15000
        (snd (addTrades ''T'' [(Num 1, NaN)] (addToken ''T'' empty_meta constructor))))) = [0]
   \<and> js_sum (map snd [(Num 1, NaN)]) = NaN
   \<and> map Num (map c_volume (fst (closeCandlesFor 15000
        (snd (addTrades ''T'' [(Num 1, NaN)] (addToken ''T'' empty_meta constructor))))))
      \<noteq> [js_sum (map snd [(Num 1, NaN)])]"
  by (simp add: addToken_def constructor_def valid_price_def isNaN_def js_le0_def
      addTrade_def closeCandlesFor_def close_entry_def mk_candle_def js_sum_def js_or0_def
      DAList.update.rep_eq DAList.empty.rep_eq Let_def)

text \<open>
  Claim C9. \<open>addTrade\<close> raises nothing and returns the manager it was given (buffers,
  price cache and tracked map untouched) when the token is not tracked, when the price is
  \<open>NaN\<close>, and when the price is zero or negative.
\<close>

theorem addTrade_invalid_noop:
  assumes "DAList.lookup (tracked cm) a = None \<or> isNaN price \<or> js_le0 price"
  shows "addTrade a price volume cm = (None, cm)"
  using assms by (auto simp: addTrade_def)

theorem addTrade_invalid_noop_witness:
  "DAList.lookup (tracked constructor) ''T'' = None
   \<and> addTrade ''T'' (Num 1) (Num 0) constructor = (None, constructor)
   \<and> isNaN NaN
   \<and> addTrade ''T'' NaN (Num 0) (addToken ''T'' empty_meta constructor)
       = (None, addToken ''T'' empty_meta constructor)
   \<and> js_le0 (Num 0)
   \<and> addTrade ''T'' (Num 0) (Num 7) (addToken ''T'' empty_meta constructor)
       = (None, addToken ''T'' empty_meta constructor)"
proof -
  have h1: "DAList.lookup (tracked constructor) ''T'' = None" by (simp add: constructor_def)
  have h2: "isNaN NaN" by (simp add: isNaN_def)
  have h3: "js_le0 (Num 0)" by (simp add: js_le0_def)
  show ?thesis
    using h1 h2 h3
      addTrade_invalid_noop[of constructor "''T''" "Num 1" "Num 0"]
      addTrade_invalid_noop[of "addToken ''T'' empty_meta constructor" "''T''" NaN "Num 0"]
      addTrade_invalid_noop[of "addToken ''T'' empty_meta constructor" "''T''" "Num 0" "Num 7"]
    by simp
qed


section \<open>The strategy on the recorded scenarios and on short histories\<close>

lemma ema_forward_flat: "ema_forward k x (replicate n x) = replicate n x"
  by (induction n) simp_all

lemma ema_forward_append:
  "ema_forward k p (xs @ ys) = ema_forward k p xs @ ema_forward k (last (p # ema_forward k p xs)) ys"
  by (induction xs arbitrary: p) simp_all

lemma spec_EMA_scenario:
  assumes "0 < p" "p \<le> n"
  shows "spec_EMA p (replicate n 1 @ [2]) = replicate (Suc (n - p)) 1 @ [1 + 2 / (real p + 1)]"
proof -
  have t: "take p (replicate n 1 @ [2::real]) = replicate p 1" using assms by simp
  have d: "drop p (replicate n 1 @ [2::real]) = replicate (n - p) 1 @ [2]" using assms by simp
  have s: "sum_list (replicate p (1::real)) / real p = 1" using assms by (simp add: sum_list_replicate)
  have "ema_forward (2 / (real p + 1)) 1 (replicate (n - p) 1 @ [2])
       = replicate (n - p) 1 @ [1 + 2 / (real p + 1)]"
    by (simp add: ema_forward_append ema_forward_flat)
  then show ?thesis using assms unfolding spec_EMA_def t d s Let_def by (simp add: replicate_app_Cons_same)
qed

lemma deltas_scenario: "deltas (replicate (Suc n) 1 @ [2]) = replicate n 0 @ [1]"
  by (induction n) simp_all

lemma rsi_forward_no_loss:
  assumes "\<forall>d \<in> set ds. 0 \<le> d" "0 < p"
  shows "rsi_forward p g 0 ds = replicate (length ds) 100"
  using assms by (induction ds arbitrary: g) (simp_all add: Let_def rsi_value_def max_def)

lemma spec_RSI_scenario:
  assumes "0 < p" "p \<le> n"
  shows "spec_RSI p (replicate (Suc n) 1 @ [2]) = replicate (Suc (Suc n - p)) 100"
proof -
  have t: "take p (replicate n 0 @ [1::real]) = replicate p 0" using assms by simp
  have l: "sum_list (map (\<lambda>d. max (- d) 0) (replicate p (0::real))) / real p = 0"
    by (simp add: sum_list_replicate)
  have nn: "\<forall>d \<in> set (drop p (replicate n 0 @ [1::real])). 0 \<le> d" by (auto dest: in_set_dropD)
  have len: "length (drop p (replicate n 0 @ [1::real])) = Suc n - p" by simp
  show ?thesis
    unfolding spec_RSI_def deltas_scenario Let_def t l
    using assms rsi_forward_no_loss[OF nn assms(1)] len
    by (simp add: rsi_value_def Suc_diff_le)
qed

lemma flat_then_spike_signal:
  assumes "map c_close h = replicate 40 1 @ [2]"
    and "requireVolumeSpike opts \<noteq> Some True"
  shows "\<exists>s. checkStrategy technicalindicators (Some h) opts = Some s
           \<and> ema9 s > ema20 s \<and> rsi s > 50
           \<and> ema9 s = 6 / 5 \<and> ema20 s = 23 / 21 \<and> rsi s = 100"
proof -
  have len: "length h = 41" using arg_cong[OF assms(1), of length] by simp
  have e9: "spec_EMA 9 (map c_close h) = replicate (Suc 31) 1 @ [6 / 5]"
    using spec_EMA_scenario[of 9 40] by (simp add: assms(1))
  have e20: "spec_EMA 20 (map c_close h) = replicate (Suc 20) 1 @ [23 / 21]"
    using spec_EMA_scenario[of 20 40] by (simp add: assms(1))
  have r: "spec_RSI 14 (map c_close h) = replicate (Suc 26) 100"
    using spec_RSI_scenario[of 14 39] by (simp add: assms(1) eval_nat_numeral)
  have flag: "(case requireVolumeSpike opts of None \<Rightarrow> False | Some b \<Rightarrow> b) = False"
    using assms(2) by (cases "requireVolumeSpike opts") auto
  show ?thesis
    by (simp add: checkStrategy_def technicalindicators_def Let_def flag len MIN_CANDLES_def
          e9 e20 r nth_append del: replicate_Suc)
qed

text \<open>
  Claim C2. Forty candles closing at 1.0 followed by one closing at 2.0, whatever their
  other fields, evaluated with the volume flag absent or off: the strategy returns a signal
  whose 9-period average (6/5) is above its 20-period average (23/21) and whose RSI (100)
  is above 50. The two indicators are the ones modelled from the specification.
\<close>

theorem crossover_scenario:
  assumes "map c_close h = replicate 40 1 @ [2]"
    and "requireVolumeSpike opts \<noteq> Some True"
  shows "\<exists>s. checkStrategy technicalindicators (Some h) opts = Some s
           \<and> ema9 s > ema20 s \<and> rsi s > 50
           \<and> ema9 s = 6 / 5 \<and> ema20 s = 23 / 21 \<and> rsi s = 100"
  using assms by (rule flat_then_spike_signal)

theorem crossover_scenario_witness:
  "map c_close (replicate 40 (mk 1 1) @ [mk 2 8]) = replicate 40 1 @ [2]
   \<and> requireVolumeSpike \<lparr>requireVolumeSpike = None\<rparr> \<noteq> Some True
   \<and> (\<exists>s. checkStrategy technicalindicators (Some (replicate 40 (mk 1 1) @ [mk 2 8]))
              \<lparr>requireVolumeSpike = None\<rparr> = Some s
            \<and> ema9 s > ema20 s \<and> rsi s > 50
            \<and> ema9 s = 6 / 5 \<and> ema20 s = 23 / 21 \<and> rsi s = 100)"
proof -
  have h1: "map c_close (replicate 40 (mk 1 1) @ [mk 2 8]) = replicate 40 1 @ [2]"
    by (simp add: mk_def)
  have h2: "requireVolumeSpike \<lparr>requireVolumeSpike = None\<rparr> \<noteq> Some True" by simp
  show ?thesis using h1 h2 crossover_scenario[OF h1 h2] by blast
qed

text \<open>
  Claim C8. A history that is missing, empty, or shorter than 21 candles (the slow period
  plus one) yields \<open>null\<close>, for every options object and whatever the indicator
  package computes: the function returns before it calls the package or reads a candle.
  The model has no exceptional result because the function has no raising path on an
  array of candle objects.
\<close>

theorem insufficient_history_no_signal:
  assumes "history = None \<or> (\<exists>h. history = Some h \<and> length h < 20 + 1)"
  shows "checkStrategy lib history opts = None"
  using assms by (auto simp: checkStrategy_def MIN_CANDLES_def Let_def)

theorem insufficient_history_no_signal_witness:
  "checkStrategy technicalindicators None \<lparr>requireVolumeSpike = None\<rparr> = None
   \<and> length (replicate 20 (mk 1 1)) < 20 + 1
   \<and> checkStrategy technicalindicators (Some (replicate 20 (mk 1 1))) \<lparr>requireVolumeSpike = None\<rparr> = None
   \<and> checkStrategy technicalindicators (Some []) \<lparr>requireVolumeSpike = Some True\<rparr> = None"
proof -
  have h: "length (replicate 20 (mk 1 1)) < 20 + 1" by simp
  show ?thesis
    using h
      insufficient_history_no_signal[of None technicalindicators "\<lparr>requireVolumeSpike = None\<rparr>"]
      insufficient_history_no_signal[of "Some (replicate 20 (mk 1 1))" technicalindicators
         "\<lparr>requireVolumeSpike = None\<rparr>"]
      insufficient_history_no_signal[of "Some []" technicalindicators
         "\<lparr>requireVolumeSpike = Some True\<rparr>"]
    by simp
qed

lemma foldl_add_zeros:
  "\<forall>x \<in> set xs. x = (0::real) \<Longrightarrow> foldl (+) a xs = a"
  by (induction xs arbitrary: a) simp_all

lemma recentVolumes_subset: "set (recentVolumes_of h) \<subseteq> c_volume ` set h"
proof -
  have "set (recentVolumes_of h) \<subseteq> set (map c_volume h)"
    unfolding recentVolumes_of_def js_slice_def Let_def
    by (meson set_take_subset set_drop_subset subset_trans)
  then show ?thesis by simp
qed

lemma zero_volumes_avg:
  assumes "\<forall>c \<in> set h. c_volume c = 0"
  shows "avgVolume_of h = 0"
proof -
  have "\<forall>x \<in> set (recentVolumes_of h). x = 0" using assms recentVolumes_subset[of h] by auto
  then have "foldl (+) 0 (recentVolumes_of h) = 0" by (rule foldl_add_zeros)
  then show ?thesis by (simp add: avgVolume_of_def)
qed

lemma no_spike_no_signal:
  assumes "requireVolumeSpike opts = Some True" "avgVolume_of h \<le> 0"
  shows "checkStrategy lib (Some h) opts = None"
  using assms
  by (auto simp add: checkStrategy_def Let_def avgVolume_of_def recentVolumes_of_def
      split: if_splits)

text \<open>
  Claim C10. With the volume flag on, the strategy returns \<open>null\<close> whenever fewer
  than five candles precede the last one, whenever the trailing average volume is zero (or
  not positive: the code asks for \<open>avgVolume > 0\<close>), and in particular whenever every
  volume in the history is zero, whatever the indicator package computes.
\<close>

theorem volume_filter_blocks_zero_average:
  assumes "requireVolumeSpike opts = Some True"
    and "length h - 1 < 5 \<or> avgVolume_of h \<le> 0 \<or> (\<forall>c \<in> set h. c_volume c = 0)"
  shows "checkStrategy lib (Some h) opts = None"
proof -
  from assms(2) consider "length h - 1 < 5" | "avgVolume_of h \<le> 0" | "\<forall>c \<in> set h. c_volume c = 0"
    by blast
  then show ?thesis
  proof cases
    case 1
    then have "length h < MIN_CANDLES" by (simp add: MIN_CANDLES_def)
    then show ?thesis by (simp add: checkStrategy_def Let_def)
  next
    case 2
    then show ?thesis using assms(1) by (rule no_spike_no_signal[rotated])
  next
    case 3
    then have "avgVolume_of h \<le> 0" by (simp add: zero_volumes_avg)
    then show ?thesis using assms(1) by (rule no_spike_no_signal[rotated])
  qed
qed


theorem volume_filter_blocks_zero_average_witness:
  "requireVolumeSpike \<lparr>requireVolumeSpike = Some True\<rparr> = Some True
   \<and> c_volume (mk 1 0) = 0 \<and> c_volume (mk 2 0) = 0
   \<and> checkStrategy technicalindicators (Some (replicate 40 (mk 1 0) @ [mk 2 0]))
         \<lparr>requireVolumeSpike = Some True\<rparr> = None
   \<and> checkStrategy technicalindicators (Some (replicate 40 (mk 1 0) @ [mk 2 0]))
         \<lparr>requireVolumeSpike = Some False\<rparr> \<noteq> None"
proof -
  let ?h = "replicate 40 (mk 1 0) @ [mk 2 0]"
  have h1: "requireVolumeSpike \<lparr>requireVolumeSpike = Some True\<rparr> = Some True" by simp
  have v: "c_volume (mk 1 0) = 0" "c_volume (mk 2 0) = 0" by (simp_all add: mk_def)
  then have z: "\<forall>c \<in> set ?h. c_volume c = 0" by auto
  then have h2: "length ?h - 1 < 5 \<or> avgVolume_of ?h \<le> 0 \<or> (\<forall>c \<in> set ?h. c_volume c = 0)"
    by blast
  have c: "map c_close ?h = replicate 40 1 @ [2]" by (simp add: mk_def)
  have off: "requireVolumeSpike \<lparr>requireVolumeSpike = Some False\<rparr> \<noteq> Some True" by simp
  have "checkStrategy technicalindicators (Some ?h) \<lparr>requireVolumeSpike = Some False\<rparr> \<noteq> None"
    using flat_then_spike_signal[OF c off] by auto
  then show ?thesis
    using h1 v volume_filter_blocks_zero_average[OF h1 h2, of technicalindicators] by simp
qed


section \<open>The backfill queue: bounded retries\<close>

lemma lookup_updateOne:
  "DAList.lookup (updateOne k f c) k' = (if k' = k then map_option f (DAList.lookup c k) else DAList.lookup c k')"
  by (cases "DAList.lookup c k") (auto simp: updateOne_def)

lemma queue_maybeMarkFailed:
  "DAList.lookup (queue (maybeMarkFailed item w)) a =
     (if a = fst item \<and> q_attempts (snd item) + 1 \<ge> MAX_ATTEMPTS
      then map_option (\<lambda>t. t\<lparr>q_status := Failed, q_error := Some ''Exhausted 5 attempts''\<rparr>)
             (DAList.lookup (queue w) a)
      else DAList.lookup (queue w) a)"
  by (simp add: maybeMarkFailed_def Let_def lookup_updateOne)

lemma queue_backfillCandles [simp]: "queue (backfillCandles a p cs w) = queue w"
  by (simp add: backfillCandles_def)

lemma queue_register_live [simp]: "queue (register_live item pool w) = queue w"
  by (simp add: register_live_def)

lemma other_fetch_and_finish:
  "a \<noteq> fst item \<Longrightarrow> DAList.lookup (queue (fetch_and_finish e now item pool w)) a = DAList.lookup (queue w) a"
  by (simp add: fetch_and_finish_def Let_def queue_maybeMarkFailed lookup_updateOne)

lemma other_processItem:
  "a \<noteq> fst item \<Longrightarrow> DAList.lookup (queue (processItem e now item w)) a = DAList.lookup (queue w) a"
  by (simp add: processItem_def Let_def queue_maybeMarkFailed lookup_updateOne other_fetch_and_finish
      split: option.splits)

lemma self_fetch_and_finish:
  assumes "DAList.lookup (queue w) (fst item) = Some t"
  shows "\<exists>t'. DAList.lookup (queue (fetch_and_finish e now item pool w)) (fst item) = Some t'
     \<and> q_attempts t' = q_attempts t \<and> q_enqueuedAt t' = q_enqueuedAt t
     \<and> q_status t' =
        (if getBackfillData e (Some pool) 300 = [] \<or>
            (initialised w \<and> DAList.lookup (tracked (manager w)) (fst item) = None \<and>
             tokenFindThrows e (fst item))
         then (if q_attempts (snd item) + 1 \<ge> MAX_ATTEMPTS then Failed else q_status t)
         else Done)"
  using assms
  by (auto simp add: fetch_and_finish_def Let_def queue_maybeMarkFailed lookup_updateOne
        backfillCandles_def register_live_def)

lemma self_processItem:
  assumes "DAList.lookup (queue w) (fst item) = Some t"
  shows "\<exists>t'. DAList.lookup (queue (processItem e now item w)) (fst item) = Some t'
     \<and> q_attempts t' = q_attempts t + 1 \<and> q_enqueuedAt t' = q_enqueuedAt t
     \<and> q_status t' =
        (if attempt_fails e w item
         then (if q_attempts (snd item) + 1 \<ge> MAX_ATTEMPTS then Failed else q_status t)
         else Done)"
proof -
  let ?w1 = "w\<lparr>queue := updateOne (fst item)
                  (\<lambda>t. t\<lparr>q_lastAttempt := Some now, q_attempts := q_attempts t + 1\<rparr>) (queue w)\<rparr>"
  let ?t1 = "t\<lparr>q_lastAttempt := Some now, q_attempts := q_attempts t + 1\<rparr>"
  have l1: "DAList.lookup (queue ?w1) (fst item) = Some ?t1"
    using assms by (simp add: lookup_updateOne)
  show ?thesis
  proof (cases "or_null (q_poolAddress (snd item))")
    case (Some pool)
    then have pf: "pool_for e item = Some pool" by (simp add: pool_for_def)
    have p: "processItem e now item w = fetch_and_finish e now item pool ?w1"
      using Some by (simp add: processItem_def Let_def)
    have f: "attempt_fails e w item \<longleftrightarrow>
        (getBackfillData e (Some pool) 300 = [] \<or>
            (initialised ?w1 \<and> DAList.lookup (tracked (manager ?w1)) (fst item) = None \<and>
             tokenFindThrows e (fst item)))"
      by (simp add: attempt_fails_def pf)
    from self_fetch_and_finish[OF l1, of e now pool] obtain t' where
      "DAList.lookup (queue (fetch_and_finish e now item pool ?w1)) (fst item) = Some t'"
      "q_attempts t' = q_attempts ?t1" "q_enqueuedAt t' = q_enqueuedAt ?t1"
      "q_status t' = (if attempt_fails e w item
         then (if q_attempts (snd item) + 1 \<ge> MAX_ATTEMPTS then Failed else q_status ?t1)
         else Done)"
      unfolding f by blast
    then show ?thesis unfolding p by (intro exI[of _ t']) simp
  next
    case None
    show ?thesis
    proof (cases "resolvePoolAddress e (fst item)")
      case n2: None
      then have pf: "pool_for e item = None" using None by (simp add: pool_for_def)
      have p: "processItem e now item w = maybeMarkFailed item ?w1"
        using None n2 by (simp add: processItem_def Let_def)
      show ?thesis using l1
        by (simp add: p attempt_fails_def pf queue_maybeMarkFailed)
    next
      case (Some pool)
      then have pf: "pool_for e item = Some pool" using None by (simp add: pool_for_def)
      let ?w2 = "?w1\<lparr>queue := updateOne (fst item) (\<lambda>t. t\<lparr>q_poolAddress := Some pool\<rparr>) (queue ?w1),
                     tokens := updateOne (fst item) (\<lambda>d. d\<lparr>t_poolAddress := Some pool\<rparr>) (tokens ?w1)\<rparr>"
      have l2: "DAList.lookup (queue ?w2) (fst item) = Some (?t1\<lparr>q_poolAddress := Some pool\<rparr>)"
        using assms by (simp add: lookup_updateOne)
      have p: "processItem e now item w = fetch_and_finish e now item pool ?w2"
        using None Some by (simp add: processItem_def Let_def)
      have f: "attempt_fails e w item \<longleftrightarrow>
        (getBackfillData e (Some pool) 300 = [] \<or>
            (initialised ?w2 \<and> DAList.lookup (tracked (manager ?w2)) (fst item) = None \<and>
             tokenFindThrows e (fst item)))"
        by (simp add: attempt_fails_def pf)
      from self_fetch_and_finish[OF l2, of e now pool] obtain t' where
        "DAList.lookup (queue (fetch_and_finish e now item pool ?w2)) (fst item) = Some t'"
        "q_attempts t' = q_attempts (?t1\<lparr>q_poolAddress := Some pool\<rparr>)"
        "q_enqueuedAt t' = q_enqueuedAt (?t1\<lparr>q_poolAddress := Some pool\<rparr>)"
        "q_status t' = (if attempt_fails e w item
           then (if q_attempts (snd item) + 1 \<ge> MAX_ATTEMPTS then Failed
                 else q_status (?t1\<lparr>q_poolAddress := Some pool\<rparr>))
           else Done)"
        unfolding f by blast
      then show ?thesis unfolding p by (intro exI[of _ t']) simp
    qed
  qed
qed

lemma entry_lookup:
  "item \<in> set (DAList.impl_of c) \<Longrightarrow> DAList.lookup c (fst item) = Some (snd item)"
  by (cases item) (simp add: DAList.lookup.rep_eq)

lemma set_limit: "set (limit n xs) \<subseteq> set xs"
  by (auto simp: limit_def dest: in_set_takeD)

lemma find_due_entry:
  assumes "item \<in> set (find_due now n w)"
  shows "item \<in> set (DAList.impl_of (queue w))" and "q_status (snd item) = Pending"
proof -
  from assms set_limit have "item \<in> set (filter (due (now - RETRY_AFTER_MS)) (DAList.impl_of (queue w)))"
    unfolding find_due_def by fastforce
  then show "item \<in> set (DAList.impl_of (queue w))" and "q_status (snd item) = Pending"
    by (simp_all add: due_def)
qed

lemma distinct_limit: "distinct (map f xs) \<Longrightarrow> distinct (map f (limit n xs))"
  by (simp add: limit_def distinct_take take_map[symmetric])

lemma distinct_fst_sort_key:
  assumes "distinct (map fst xs)"
  shows "distinct (map fst (sort_key k xs))"
  using assms by (simp add: distinct_map)

lemma find_due_distinct: "distinct (map fst (find_due now n w))"
  unfolding find_due_def
  by (intro distinct_limit distinct_fst_sort_key distinct_map_filter) simp

lemma fold_processItem:
  assumes "distinct (map fst items)"
    and "\<forall>item \<in> set items. DAList.lookup (queue w) (fst item) = Some (snd item)"
  shows "(queue_ok w \<longrightarrow> queue_ok (fold (processItem e now) items w))
       \<and> (\<forall>a. a \<notin> fst ` set items \<longrightarrow>
             DAList.lookup (queue (fold (processItem e now) items w)) a = DAList.lookup (queue w) a)"
  using assms
proof (induction items arbitrary: w)
  case Nil
  then show ?case by simp
next
  case (Cons it rest)
  let ?w' = "processItem e now it w"
  have cur: "DAList.lookup (queue w) (fst it) = Some (snd it)" using Cons.prems by simp
  have d: "distinct (map fst rest)" using Cons.prems by simp
  have snap: "\<forall>item \<in> set rest. DAList.lookup (queue ?w') (fst item) = Some (snd item)"
  proof
    fix item assume i: "item \<in> set rest"
    then have "fst item \<noteq> fst it" using Cons.prems(1) by (force simp: image_iff)
    then show "DAList.lookup (queue ?w') (fst item) = Some (snd item)"
      using Cons.prems(2) i by (simp add: other_processItem)
  qed
  have ok: "queue_ok w \<Longrightarrow> queue_ok ?w'"
  proof -
    assume okw: "queue_ok w"
    show "queue_ok ?w'"
      unfolding queue_ok_def
    proof (intro allI impI)
      fix a t' assume l: "DAList.lookup (queue ?w') a = Some t'" and p: "q_status t' = Pending"
      show "q_attempts t' < MAX_ATTEMPTS"
      proof (cases "a = fst it")
        case False
        then show ?thesis using l p okw by (simp add: other_processItem queue_ok_def)
      next
        case True
        from self_processItem[OF cur, of e now] obtain t'' where
          "DAList.lookup (queue ?w') (fst it) = Some t''"
          "q_attempts t'' = q_attempts (snd it) + 1"
          "q_status t'' = (if attempt_fails e w it
             then (if q_attempts (snd it) + 1 \<ge> MAX_ATTEMPTS then Failed else q_status (snd it))
             else Done)" by blast
        then show ?thesis using l p True by (auto split: if_splits)
      qed
    qed
  qed
  from Cons.IH[OF d snap] have
    ih1: "queue_ok ?w' \<longrightarrow> queue_ok (fold (processItem e now) rest ?w')"
    and ih2: "\<forall>a. a \<notin> fst ` set rest \<longrightarrow>
        DAList.lookup (queue (fold (processItem e now) rest ?w')) a = DAList.lookup (queue ?w') a"
    by auto
  show ?case using ok ih1 ih2 by (auto simp: other_processItem)
qed

lemma queue_draining [simp]: "queue (w\<lparr>draining := b\<rparr>) = queue w"
  by simp

lemma drain_fold:
  "queue (drain e now n w) = queue w \<or>
   queue (drain e now n w) = queue (fold (processItem e now) (find_due now n w) (w\<lparr>draining := True\<rparr>))"
  by (simp add: drain_def Let_def)

lemma find_due_draining [simp]: "find_due now n (w\<lparr>draining := b\<rparr>) = find_due now n w"
  by (simp add: find_due_def)

lemma queue_ok_cong: "queue w = queue w' \<Longrightarrow> queue_ok w = queue_ok w'"
  by (simp add: queue_ok_def)

lemma drain_queue_ok:
  assumes "queue_ok w"
  shows "queue_ok (drain e now n w)"
proof -
  let ?w = "w\<lparr>draining := True\<rparr>"
  let ?items = "find_due now n w"
  have s: "\<forall>item \<in> set ?items. DAList.lookup (queue ?w) (fst item) = Some (snd item)"
    using find_due_entry(1) entry_lookup by fastforce
  have "queue_ok ?w" using assms by (simp add: queue_ok_def)
  with fold_processItem[OF find_due_distinct s, of e now]
  have "queue_ok (fold (processItem e now) ?items ?w)" by blast
  then show ?thesis using drain_fold[of e now n w] assms
    by (metis queue_ok_cong)
qed

lemma drain_keeps_failed:
  assumes "DAList.lookup (queue w) a = Some t" "q_status t = Failed"
  shows "DAList.lookup (queue (drain e now n w)) a = Some t"
    and "\<forall>t'. (a, t') \<notin> set (find_due now n w)"
proof -
  let ?w = "w\<lparr>draining := True\<rparr>"
  let ?items = "find_due now n w"
  have s: "\<forall>item \<in> set ?items. DAList.lookup (queue ?w) (fst item) = Some (snd item)"
    using find_due_entry(1) entry_lookup by fastforce
  show ns: "\<forall>t'. (a, t') \<notin> set (find_due now n w)"
  proof (intro allI notI)
    fix t' assume i: "(a, t') \<in> set (find_due now n w)"
    then have "t' = t" using s assms(1) by auto
    then show False using find_due_entry(2)[OF i] assms(2) by simp
  qed
  then have "a \<notin> fst ` set ?items" by auto
  with fold_processItem[OF find_due_distinct s, of e now]
  have "DAList.lookup (queue (fold (processItem e now) ?items ?w)) a = DAList.lookup (queue ?w) a"
    by blast
  then show "DAList.lookup (queue (drain e now n w)) a = Some t"
    using drain_fold[of e now n w] assms(1) by auto
qed

lemma drains_keep_failed:
  assumes "DAList.lookup (queue w) a = Some t" "q_status t = Failed"
  shows "DAList.lookup (queue (drains ds w)) a = Some t"
  using assms
proof (induction ds arbitrary: w)
  case Nil then show ?case by simp
next
  case (Cons d ds)
  then show ?case using drain_keeps_failed(1) by simp
qed

lemma enqueue_queue_ok: "queue_ok w \<Longrightarrow> queue_ok (enqueue now tok w)"
  by (auto simp: queue_ok_def enqueue_def MAX_ATTEMPTS_def DAList.lookup_update split: option.splits if_splits)

lemma remove_queue_ok: "queue_ok w \<Longrightarrow> queue_ok (remove a w)"
  by (auto simp: queue_ok_def remove_def split: if_splits)

lemma fold_audit_queue_ok: "queue_ok w \<Longrightarrow> queue_ok (fold (audit_token now) ts w)"
  by (induction ts arbitrary: w) (simp_all add: audit_token_def enqueue_queue_ok)

lemma fold_gap_queue: "queue (fold (gap_token e now) ts w) = queue w"
  by (induction ts arbitrary: w) (simp_all add: gap_token_def Let_def split: option.splits)

lemma reachable_queue_ok: "reachable w \<Longrightarrow> queue_ok w"
proof (induction rule: reachable.induct)
  case (start w)
  then show ?case by (simp add: queue_ok_def)
next
  case (enqueued w now tok)
  then show ?case by (simp add: enqueue_queue_ok)
next
  case (removed w a)
  then show ?case by (simp add: remove_queue_ok)
next
  case (drained w e now n)
  then show ?case by (simp add: drain_queue_ok)
next
  case (audited w now)
  then show ?case by (simp add: auditAndEnqueueMissing_def fold_audit_queue_ok)
next
  case (gap_filled w e now)
  then show ?case
    using queue_ok_cong[of "gapFillOnStartup e now w" w]
    by (simp add: gapFillOnStartup_def fold_gap_queue)
next
  case (elsewhere w ts cs m i tm)
  then show ?case by (simp add: queue_ok_def)
qed

lemma failing_run:
  assumes "DAList.lookup (queue w) a = Some t" "q_status t = Pending"
    and "q_attempts t + length rs = MAX_ATTEMPTS" "rs \<noteq> []" "all_fail rs a w"
  shows "\<exists>t'. DAList.lookup (queue (process_run rs a w)) a = Some t'
           \<and> q_status t' = Failed \<and> q_attempts t' = MAX_ATTEMPTS"
  using assms
proof (induction rs arbitrary: w t)
  case Nil
  then show ?case by simp
next
  case (Cons r rs)
  let ?w' = "processItem (fst r) (snd r) (a, t) w"
  have f: "attempt_fails (fst r) w (a, t)" and rest: "all_fail rs a ?w'"
    using Cons.prems(1,5) by simp_all
  from self_processItem[of w "(a, t)" t "fst r" "snd r"] Cons.prems(1) f
  obtain t1 where t1: "DAList.lookup (queue ?w') a = Some t1"
    "q_attempts t1 = q_attempts t + 1"
    "q_status t1 = (if q_attempts t + 1 \<ge> MAX_ATTEMPTS then Failed else q_status t)"
    by auto
  have run: "process_run (r # rs) a w = process_run rs a ?w'"
    using Cons.prems(1,2) by simp
  show ?case
  proof (cases "rs = []")
    case True
    then have "q_attempts t + 1 = MAX_ATTEMPTS" using Cons.prems(3) by simp
    then show ?thesis using t1 True run by simp
  next
    case False
    then have lt: "q_attempts t + 1 < MAX_ATTEMPTS" using Cons.prems(3) by (cases rs) auto
    then have p1: "q_status t1 = Pending" using t1 Cons.prems(2) by simp
    have "q_attempts t1 + length rs = MAX_ATTEMPTS" using t1 Cons.prems(3) by simp
    from Cons.IH[OF t1(1) p1 this False rest] show ?thesis using run by simp
  qed
qed

lemma offline_fails: "attempt_fails offline w item"
  by (simp add: attempt_fails_def offline_def getBackfillData_def resolvePoolAddress_def
      pool_for_def or_null_def split: option.splits)

lemma all_fail_offline:
  "DAList.lookup (queue w) a \<noteq> None \<Longrightarrow> \<forall>r \<in> set rs. fst r = offline \<Longrightarrow> all_fail rs a w"
proof (induction rs arbitrary: w)
  case Nil then show ?case by simp
next
  case (Cons r rs)
  then obtain t where t: "DAList.lookup (queue w) a = Some t" by auto
  from self_processItem[of w "(a, t)" t "fst r" "snd r"] t
  have "DAList.lookup (queue (processItem (fst r) (snd r) (a, t) w)) a \<noteq> None" by auto
  then show ?case using Cons t offline_fails by simp
qed

text \<open>
  Claim C3. In every state reachable between operations, a pending entry has fewer than
  \<open>MAX_ATTEMPTS\<close> (5) attempts. A fresh pending entry whose next five attempts all fail
  is marked failed by the fifth, with five attempts counted. An entry that is failed stays
  exactly as it is through any sequence of drains, and the query of a drain never returns
  it.
\<close>

theorem bounded_retries:
  "(reachable w \<longrightarrow>
      (\<forall>a t. DAList.lookup (queue w) a = Some t \<longrightarrow> q_status t = Pending
            \<longrightarrow> q_attempts t < MAX_ATTEMPTS))
    \<and> (\<forall>a t rs. DAList.lookup (queue w) a = Some t \<longrightarrow> q_status t = Pending
            \<longrightarrow> q_attempts t = 0 \<longrightarrow> length rs = 5 \<longrightarrow> all_fail rs a w
            \<longrightarrow> (\<exists>t'. DAList.lookup (queue (process_run rs a w)) a = Some t'
                   \<and> q_status t' = Failed \<and> q_attempts t' = MAX_ATTEMPTS))
    \<and> (\<forall>a t ds now n. DAList.lookup (queue w) a = Some t \<longrightarrow> q_status t = Failed
            \<longrightarrow> DAList.lookup (queue (drains ds w)) a = Some t
              \<and> (\<forall>t'. (a, t') \<notin> set (find_due now n (drains ds w))))"
proof (intro conjI allI impI)
  fix a t
  assume "reachable w" "DAList.lookup (queue w) a = Some t" "q_status t = Pending"
  then show "q_attempts t < MAX_ATTEMPTS"
    using reachable_queue_ok[of w] by (simp add: queue_ok_def)
next
  fix a t and rs :: "(env \<times> date) list"
  assume h: "DAList.lookup (queue w) a = Some t" "q_status t = Pending" "q_attempts t = 0"
    "length rs = 5" "all_fail rs a w"
  then have "q_attempts t + length rs = MAX_ATTEMPTS" "rs \<noteq> []"
    by (auto simp: MAX_ATTEMPTS_def)
  then show "\<exists>t'. DAList.lookup (queue (process_run rs a w)) a = Some t'
                   \<and> q_status t' = Failed \<and> q_attempts t' = MAX_ATTEMPTS"
    using failing_run[of w a t rs] h by blast
next
  fix a t ds
  assume "DAList.lookup (queue w) a = Some t" "q_status t = Failed"
  then show "DAList.lookup (queue (drains ds w)) a = Some t" by (rule drains_keep_failed)
next
  fix a t ds t' and now :: date and n :: nat
  assume h: "DAList.lookup (queue w) a = Some t" "q_status t = Failed"
  then have "DAList.lookup (queue (drains ds w)) a = Some t" by (rule drains_keep_failed)
  then have "\<forall>t'. (a, t') \<notin> set (find_due now n (drains ds w))"
    using h(2) by (rule drain_keeps_failed(2))
  then show "(a, t') \<notin> set (find_due now n (drains ds w))" by blast
qed

theorem bounded_retries_witness:
  "reachable (enqueue 1000 tkn fresh_world)
   \<and> map_option q_status (DAList.lookup (queue (enqueue 1000 tkn fresh_world)) ''T'') = Some Pending
   \<and> map_option q_attempts (DAList.lookup (queue (enqueue 1000 tkn fresh_world)) ''T'') = Some 0
   \<and> (0::nat) < MAX_ATTEMPTS
   \<and> length (replicate 5 (offline, 2000 :: date)) = 5
   \<and> all_fail (replicate 5 (offline, 2000)) ''T'' (enqueue 1000 tkn fresh_world)
   \<and> map_option q_status (DAList.lookup (queue (process_run (replicate 5 (offline, 2000)) ''T''
         (enqueue 1000 tkn fresh_world))) ''T'') = Some Failed
   \<and> map_option q_status (DAList.lookup (queue (drains [(offline, 900000, 10)]
         (process_run (replicate 5 (offline, 2000)) ''T'' (enqueue 1000 tkn fresh_world)))) ''T'')
       = Some Failed
   \<and> ''T'' \<notin> fst ` set (find_due 1800000 10 (drains [(offline, 900000, 10)]
         (process_run (replicate 5 (offline, 2000)) ''T'' (enqueue 1000 tkn fresh_world))))"
proof -
  let ?w1 = "enqueue 1000 tkn fresh_world"
  let ?rs = "replicate 5 (offline, 2000 :: date)"
  let ?w5 = "process_run ?rs ''T'' ?w1"
  let ?t0 = "\<lparr>q_symbol = ''TKN'', q_name = ''Token'', q_poolAddress = None, q_status = Pending,
              q_attempts = 0, q_lastAttempt = None, q_error = None, q_enqueuedAt = 1000,
              q_completedAt = None\<rparr>"
  have r0: "reachable fresh_world" by (rule reachable.start) (simp_all add: fresh_world_def)
  then have r1: "reachable ?w1" by (rule reachable.enqueued)
  have l1: "DAList.lookup (queue ?w1) ''T'' = Some ?t0"
    by (simp add: enqueue_def tkn_def fresh_world_def or_empty_def or_null_def)
  have p: "q_status ?t0 = Pending" and z: "q_attempts ?t0 = 0" by simp_all
  have len: "length ?rs = 5" by simp
  have af: "all_fail ?rs ''T'' ?w1" by (rule all_fail_offline) (simp_all add: l1)
  have i: "q_attempts ?t0 < MAX_ATTEMPTS"
    using bounded_retries[of ?w1, THEN conjunct1, rule_format, OF r1 l1 p] .
  from bounded_retries[of ?w1, THEN conjunct2, THEN conjunct1, rule_format, OF l1 p z len af]
  obtain t' where t': "DAList.lookup (queue ?w5) ''T'' = Some t'" "q_status t' = Failed"
    by blast
  from bounded_retries[of ?w5, THEN conjunct2, THEN conjunct2, rule_format, OF t',
      of "[(offline, 900000, 10)]" 1800000 10]
  have k: "DAList.lookup (queue (drains [(offline, 900000, 10)] ?w5)) ''T'' = Some t'"
    and ns: "\<forall>t''. (''T'', t'') \<notin> set (find_due 1800000 10 (drains [(offline, 900000, 10)] ?w5))"
    by blast+
  from ns have "''T'' \<notin> fst ` set (find_due 1800000 10 (drains [(offline, 900000, 10)] ?w5))"
    by force
  then show ?thesis using r1 l1 len af t' k i by simp
qed

text \<open>
  Claim C5. \<open>enqueue\<close> on an address that has an entry, whatever its status, returns
  the state unchanged; so a second \<open>enqueue\<close> of the same address changes nothing,
  the queue keeps its length, and an entry created by the first call is still pending with
  zero attempts.
\<close>

theorem enqueue_insert_if_absent:
  assumes "e_address tok' = e_address tok"
  shows "(DAList.lookup (queue w) (e_address tok) \<noteq> None \<longrightarrow> enqueue now tok w = w)
       \<and> enqueue now' tok' (enqueue now tok w) = enqueue now tok w
       \<and> length (DAList.impl_of (queue (enqueue now' tok' (enqueue now tok w))))
           = length (DAList.impl_of (queue (enqueue now tok w)))
       \<and> (DAList.lookup (queue w) (e_address tok) = None \<longrightarrow>
            (\<exists>t. DAList.lookup (queue (enqueue now' tok' (enqueue now tok w))) (e_address tok) = Some t
                 \<and> q_attempts t = 0 \<and> q_status t = Pending))"
proof -
  have 1: "DAList.lookup (queue w) (e_address tok) \<noteq> None \<longrightarrow> enqueue now tok w = w"
    by (auto simp: enqueue_def)
  have present: "DAList.lookup (queue (enqueue now tok w)) (e_address tok) \<noteq> None"
    by (auto simp: enqueue_def split: option.splits)
  then have 2: "enqueue now' tok' (enqueue now tok w) = enqueue now tok w"
    using assms by (auto simp: enqueue_def[of now' tok'])
  have 3: "DAList.lookup (queue w) (e_address tok) = None \<longrightarrow>
            (\<exists>t. DAList.lookup (queue (enqueue now tok w)) (e_address tok) = Some t
                 \<and> q_attempts t = 0 \<and> q_status t = Pending)"
    by (simp add: enqueue_def)
  show ?thesis using 1 2 3 by simp
qed

theorem enqueue_insert_if_absent_witness:
  "e_address tkn = e_address tkn
   \<and> DAList.lookup (queue exhausted_world) (e_address tkn) \<noteq> None
   \<and> enqueue 7000 tkn exhausted_world = exhausted_world
   \<and> DAList.lookup (queue fresh_world) (e_address tkn) = None
   \<and> enqueue 2000 tkn (enqueue 1000 tkn fresh_world) = enqueue 1000 tkn fresh_world
   \<and> length (DAList.impl_of (queue (enqueue 2000 tkn (enqueue 1000 tkn fresh_world)))) = 1
   \<and> map_option q_attempts
        (DAList.lookup (queue (enqueue 2000 tkn (enqueue 1000 tkn fresh_world))) ''T'') = Some 0"
proof -
  have h: "e_address tkn = e_address tkn" by simp
  have a: "DAList.lookup (queue exhausted_world) (e_address tkn) \<noteq> None"
    by (simp add: exhausted_world_def tkn_def)
  have b: "DAList.lookup (queue fresh_world) (e_address tkn) = None"
    by (simp add: fresh_world_def)
  have l: "length (DAList.impl_of (queue (enqueue 1000 tkn fresh_world))) = 1"
    by (simp add: enqueue_def fresh_world_def tkn_def DAList.update.rep_eq DAList.empty.rep_eq)
  have t: "e_address tkn = ''T''" by (simp add: tkn_def)
  show ?thesis
    using a b l
      enqueue_insert_if_absent[OF h, of exhausted_world 7000 7000]
      enqueue_insert_if_absent[OF h, of fresh_world 1000 2000]
    by (auto simp: t)
qed

lemma enqueue_keeps_entry:
  "DAList.lookup (queue w) a = Some t \<Longrightarrow> DAList.lookup (queue (enqueue now tok w)) a = Some t"
  by (auto simp: enqueue_def DAList.lookup_update split: option.splits)

lemma audit_token_keeps_entry:
  "DAList.lookup (queue w) a = Some t \<Longrightarrow> DAList.lookup (queue (audit_token now e w)) a = Some t"
  by (simp add: audit_token_def enqueue_keeps_entry)

lemma audit_token_candles [simp]: "candles (audit_token now e w) = candles w"
  by (simp add: audit_token_def enqueue_def split: option.splits)

lemma audit_token_other:
  "fst e \<noteq> a \<Longrightarrow> DAList.lookup (queue (audit_token now e w)) a = DAList.lookup (queue w) a"
  by (auto simp: audit_token_def enqueue_def DAList.lookup_update split: option.splits)

lemma audit_token_inserts:
  assumes "DAList.lookup (queue w) (fst e) = None" "countDocuments (fst e) (candles w) = 0"
  shows "\<exists>t. DAList.lookup (queue (audit_token now e w)) (fst e) = Some t
           \<and> q_status t = Pending \<and> q_attempts t = 0"
  using assms by (simp add: audit_token_def enqueue_def)

lemma fold_audit_keeps_entry:
  "DAList.lookup (queue w) a = Some t \<Longrightarrow>
     DAList.lookup (queue (fold (audit_token now) ts w)) a = Some t"
  by (induction ts arbitrary: w) (simp_all add: audit_token_keeps_entry)

lemma fold_audit_inserts:
  assumes "DAList.lookup (queue w) a = None" "(a, d) \<in> set ts"
    and "countDocuments a (candles w) = 0"
  shows "\<exists>t. DAList.lookup (queue (fold (audit_token now) ts w)) a = Some t
           \<and> q_status t = Pending \<and> q_attempts t = 0"
  using assms
proof (induction ts arbitrary: w)
  case Nil
  then show ?case by simp
next
  case (Cons e ts)
  show ?case
  proof (cases "fst e = a")
    case True
    from audit_token_inserts[of w e now] Cons.prems True
    obtain t where t: "DAList.lookup (queue (audit_token now e w)) a = Some t"
      "q_status t = Pending" "q_attempts t = 0" by auto
    from fold_audit_keeps_entry[OF t(1), of now ts] t(2,3) show ?thesis by simp
  next
    case False
    then have "DAList.lookup (queue (audit_token now e w)) a = None"
      using Cons.prems(1) by (simp add: audit_token_other)
    moreover have "(a, d) \<in> set ts" using Cons.prems(2) False by auto
    moreover have "countDocuments a (candles (audit_token now e w)) = 0"
      using Cons.prems(3) by simp
    ultimately show ?thesis using Cons.IH[of "audit_token now e w"] by simp
  qed
qed

text \<open>
  Claim C4, as the code has it. After the audit every registry token without a stored
  candle has a queue entry. A token that had no entry gets a fresh one, pending with zero
  attempts. An entry that was in the queue before the audit is the same entry afterwards,
  with its attempts and its status, failed included: the audit adds entries and resets
  none.
\<close>

theorem audit_enqueues_missing_only:
  "(DAList.lookup (tokens w) a = Some d \<longrightarrow> countDocuments a (candles w) = 0 \<longrightarrow>
       DAList.lookup (queue (auditAndEnqueueMissing now w)) a \<noteq> None)
   \<and> (DAList.lookup (tokens w) a = Some d \<longrightarrow> countDocuments a (candles w) = 0 \<longrightarrow>
       DAList.lookup (queue w) a = None \<longrightarrow>
       (\<exists>t'. DAList.lookup (queue (auditAndEnqueueMissing now w)) a = Some t'
             \<and> q_status t' = Pending \<and> q_attempts t' = 0))
   \<and> (DAList.lookup (queue w) a = Some t \<longrightarrow>
       DAList.lookup (queue (auditAndEnqueueMissing now w)) a = Some t)"
proof (intro conjI impI)
  assume tok: "DAList.lookup (tokens w) a = Some d" and c: "countDocuments a (candles w) = 0"
  then have m: "(a, d) \<in> set (DAList.impl_of (tokens w))"
    by (auto simp: DAList.lookup.rep_eq dest: map_of_SomeD)
  show "DAList.lookup (queue (auditAndEnqueueMissing now w)) a \<noteq> None"
  proof (cases "DAList.lookup (queue w) a")
    case None
    from fold_audit_inserts[OF None m c, of now] show ?thesis
      by (auto simp: auditAndEnqueueMissing_def)
  next
    case (Some t0)
    from fold_audit_keeps_entry[OF Some, of now "DAList.impl_of (tokens w)"] show ?thesis
      by (simp add: auditAndEnqueueMissing_def)
  qed
next
  assume tok: "DAList.lookup (tokens w) a = Some d" and c: "countDocuments a (candles w) = 0"
    and n: "DAList.lookup (queue w) a = None"
  from tok have m: "(a, d) \<in> set (DAList.impl_of (tokens w))"
    by (auto simp: DAList.lookup.rep_eq dest: map_of_SomeD)
  from fold_audit_inserts[OF n m c, of now]
  show "\<exists>t'. DAList.lookup (queue (auditAndEnqueueMissing now w)) a = Some t'
             \<and> q_status t' = Pending \<and> q_attempts t' = 0"
    by (simp add: auditAndEnqueueMissing_def)
next
  assume "DAList.lookup (queue w) a = Some t"
  then show "DAList.lookup (queue (auditAndEnqueueMissing now w)) a = Some t"
    by (simp add: auditAndEnqueueMissing_def fold_audit_keeps_entry)
qed

theorem audit_enqueues_missing_only_witness:
  "DAList.lookup (tokens unqueued_world) ''T''
      = Some \<lparr>t_symbol = Some ''TKN'', t_name = Some ''Token'', t_poolAddress = None,
               t_launchedAt = None, t_isActive = True\<rparr>
   \<and> countDocuments ''T'' (candles unqueued_world) = 0
   \<and> DAList.lookup (queue unqueued_world) ''T'' = None
   \<and> map_option q_status (DAList.lookup (queue (auditAndEnqueueMissing 9000 unqueued_world)) ''T'')
        = Some Pending
   \<and> map_option q_attempts (DAList.lookup (queue (auditAndEnqueueMissing 9000 unqueued_world)) ''T'')
        = Some 0
   \<and> map_option q_status (DAList.lookup (queue exhausted_world) ''T'') = Some Failed
   \<and> DAList.lookup (queue (auditAndEnqueueMissing 9000 exhausted_world)) ''T''
        = DAList.lookup (queue exhausted_world) ''T''"
proof -
  let ?d = "\<lparr>t_symbol = Some ''TKN'', t_name = Some ''Token'', t_poolAddress = None,
               t_launchedAt = None, t_isActive = True\<rparr>"
  let ?t = "\<lparr>q_symbol = ''TKN'', q_name = ''Token'', q_poolAddress = None, q_status = Failed,
            q_attempts = 5, q_lastAttempt = Some 5000, q_error = Some ''Exhausted 5 attempts'',
            q_enqueuedAt = 1000, q_completedAt = None\<rparr>"
  have h1: "DAList.lookup (tokens unqueued_world) ''T'' = Some ?d"
    and h2: "countDocuments ''T'' (candles unqueued_world) = 0"
    and h3: "DAList.lookup (queue unqueued_world) ''T'' = None"
    by (simp_all add: unqueued_world_def exhausted_world_def fresh_world_def countDocuments_def
        DAList.empty.rep_eq)
  have h4: "DAList.lookup (queue exhausted_world) ''T'' = Some ?t"
    by (simp add: exhausted_world_def fresh_world_def)
  from audit_enqueues_missing_only[of unqueued_world "''T''" ?d 9000, THEN conjunct2,
      THEN conjunct1, rule_format, OF h1 h2 h3]
  obtain t' where t': "DAList.lookup (queue (auditAndEnqueueMissing 9000 unqueued_world)) ''T'' = Some t'"
    "q_status t' = Pending" "q_attempts t' = 0" by blast
  have k: "DAList.lookup (queue (auditAndEnqueueMissing 9000 exhausted_world)) ''T'' = Some ?t"
    using audit_enqueues_missing_only[of exhausted_world "''T''" _ 9000 ?t, THEN conjunct2,
      THEN conjunct2, rule_format, OF h4] .
  show ?thesis using h1 h2 h3 h4 t' k by simp
qed

text \<open>
  Claim C4 as it is written asks for a pending entry with zero attempts also where an
  entry existed. At a registry token with no candle whose queue entry is failed with five
  attempts, the audit leaves the state as it is: the entry is still failed, not pending,
  and still counts five attempts, not zero.
\<close>

theorem audit_fresh_priority_counterexample:
  "DAList.lookup (tokens exhausted_world) ''T'' \<noteq> None
   \<and> countDocuments ''T'' (candles exhausted_world) = 0
   \<and> auditAndEnqueueMissing 9000 exhausted_world = exhausted_world
   \<and> map_option q_status (DAList.lookup (queue (auditAndEnqueueMissing 9000 exhausted_world)) ''T'')
       = Some Failed
   \<and> map_option q_status (DAList.lookup (queue (auditAndEnqueueMissing 9000 exhausted_world)) ''T'')
       \<noteq> Some Pending
   \<and> map_option q_attempts (DAList.lookup (queue (auditAndEnqueueMissing 9000 exhausted_world)) ''T'')
       = Some 5
   \<and> map_option q_attempts (DAList.lookup (queue (auditAndEnqueueMissing 9000 exhausted_world)) ''T'')
       \<noteq> Some 0"
  by (simp add: exhausted_world_def fresh_world_def auditAndEnqueueMissing_def audit_token_def
      countDocuments_def enqueue_def DAList.update.rep_eq DAList.empty.rep_eq)


section \<open>The candle store: duplicate writes and the gap fill\<close>

lemma lookup_insertOne:
  "DAList.lookup (snd (insertOne kd c)) k =
     (case DAList.lookup c k of Some d \<Rightarrow> Some d | None \<Rightarrow> (if k = fst kd then Some (snd kd) else None))"
  by (auto simp: insertOne_def DAList.lookup_update split: option.splits)

lemma lookup_insertMany:
  "DAList.lookup (snd (insertMany kds c)) k =
     (case DAList.lookup c k of Some d \<Rightarrow> Some d | None \<Rightarrow> map_of kds k)"
proof (induction kds arbitrary: c)
  case Nil
  then show ?case by (simp split: option.splits)
next
  case (Cons kd kds)
  show ?case
    by (cases kd) (auto simp: Let_def Cons.IH lookup_insertOne split: option.splits)
qed

lemma insertMany_present:
  "\<forall>kd \<in> set kds. DAList.lookup c (fst kd) \<noteq> None \<Longrightarrow> insertMany kds c = (replicate (length kds) DuplicateKey, c)"
  by (induction kds) (auto simp: Let_def insertOne_def)

lemma update_new_appends:
  "map_of al k = None \<Longrightarrow> AList.update k v al = al @ [(k, v)]"
  by (induction al) auto

lemma impl_insertOne:
  "\<exists>news. DAList.impl_of (snd (insertOne kd c)) = DAList.impl_of c @ news \<and> set news \<subseteq> {kd}"
proof (cases "DAList.lookup c (fst kd)")
  case None
  then have "DAList.impl_of (snd (insertOne kd c)) = DAList.impl_of c @ [kd]"
    by (simp add: insertOne_def DAList.update.rep_eq DAList.lookup.rep_eq update_new_appends)
  then show ?thesis by auto
next
  case (Some d)
  then show ?thesis by (simp add: insertOne_def)
qed

lemma impl_insertMany:
  "\<exists>news. DAList.impl_of (snd (insertMany kds c)) = DAList.impl_of c @ news \<and> set news \<subseteq> set kds"
proof (induction kds arbitrary: c)
  case Nil
  then show ?case by simp
next
  case (Cons kd kds)
  from impl_insertOne[of kd c] obtain n1 where
    n1: "DAList.impl_of (snd (insertOne kd c)) = DAList.impl_of c @ n1" "set n1 \<subseteq> {kd}" by blast
  from Cons.IH[of "snd (insertOne kd c)"] obtain n2 where
    n2: "DAList.impl_of (snd (insertMany kds (snd (insertOne kd c))))
          = DAList.impl_of (snd (insertOne kd c)) @ n2" "set n2 \<subseteq> set kds" by blast
  have "DAList.impl_of (snd (insertMany (kd # kds) c)) = DAList.impl_of c @ (n1 @ n2)"
    using n1 n2 by (simp add: Let_def)
  moreover have "set (n1 @ n2) \<subseteq> set (kd # kds)" using n1 n2 by auto
  ultimately show ?case by blast
qed

lemma gap_token_alt:
  "gap_token e now t w =
     (if gap_due now (fst t) w \<and> getBackfillData e (t_poolAddress (snd t)) 300 \<noteq> []
      then backfillCandles (fst t) (t_poolAddress (snd t)) (getBackfillData e (t_poolAddress (snd t)) 300) w
      else w)"
  by (simp add: gap_token_def gap_due_def Let_def split: option.splits)

lemma backfill_docs_keys: "fst ` set (backfill_docs a pool cs) = (\<lambda>c. (a, o_timestamp c)) ` set cs"
  by (force simp: backfill_docs_def)

lemma backfillCandles_present:
  assumes "\<forall>c \<in> set cs. DAList.lookup (candles w) (a, o_timestamp c) \<noteq> None"
  shows "backfillCandles a pool cs w = w"
proof -
  have "\<forall>kd \<in> set (backfill_docs a pool cs). DAList.lookup (candles w) (fst kd) \<noteq> None"
    using assms by (auto simp: backfill_docs_def)
  then show ?thesis by (simp add: backfillCandles_def insertMany_present)
qed

lemma backfillCandles_keeps:
  "DAList.lookup (candles w) k = Some d \<Longrightarrow> DAList.lookup (candles (backfillCandles a pool cs w)) k = Some d"
  by (simp add: backfillCandles_def lookup_insertMany)

lemma backfillCandles_covers:
  assumes "c \<in> set cs"
  shows "DAList.lookup (candles (backfillCandles a pool cs w)) (a, o_timestamp c) \<noteq> None"
proof -
  have "(a, o_timestamp c) \<in> fst ` set (backfill_docs a pool cs)"
    using assms by (simp add: backfill_docs_keys)
  then have "map_of (backfill_docs a pool cs) (a, o_timestamp c) \<noteq> None"
    by (simp add: map_of_eq_None_iff)
  moreover have "cs \<noteq> []" using assms by auto
  ultimately show ?thesis
    by (auto simp: backfillCandles_def lookup_insertMany split: option.splits)
qed

lemma backfillCandles_other_latest:
  assumes "a' \<noteq> a"
  shows "getLatestCandleTime a' (backfillCandles a pool cs w) = getLatestCandleTime a' w"
proof (cases "cs = []")
  case True
  then show ?thesis by (simp add: backfillCandles_def)
next
  case False
  from impl_insertMany[of "backfill_docs a pool cs" "candles w"] obtain news where
    n: "DAList.impl_of (snd (insertMany (backfill_docs a pool cs) (candles w)))
          = DAList.impl_of (candles w) @ news" "set news \<subseteq> set (backfill_docs a pool cs)" by blast
  have "\<forall>e \<in> set news. fst (fst e) = a" using n(2) by (auto simp: backfill_docs_def)
  then have "filter (\<lambda>e. fst (fst e) = a') news = []" using assms by (auto simp: filter_empty_conv)
  then show ?thesis using False n(1) by (simp add: getLatestCandleTime_def backfillCandles_def)
qed

lemma quiet_fixed: "quiet e now t w \<Longrightarrow> gap_token e now t w = w"
  by (auto simp: gap_token_alt quiet_def backfillCandles_present)

lemma quiet_after: "quiet e now t (gap_token e now t w)"
proof (cases "gap_due now (fst t) w \<and> getBackfillData e (t_poolAddress (snd t)) 300 \<noteq> []")
  case True
  then show ?thesis
    using backfillCandles_covers[of _ "getBackfillData e (t_poolAddress (snd t)) 300" "fst t"
        "t_poolAddress (snd t)" w]
    by (simp add: gap_token_alt quiet_def)
next
  case False
  then show ?thesis by (auto simp: gap_token_alt quiet_def)
qed

lemma quiet_other:
  assumes "quiet e now t w" "fst t' \<noteq> fst t"
  shows "quiet e now t (gap_token e now t' w)"
proof -
  have "gap_due now (fst t) (gap_token e now t' w) = gap_due now (fst t) w"
    using assms(2) by (simp add: gap_token_alt gap_due_def backfillCandles_other_latest)
  moreover have "\<And>k. DAList.lookup (candles w) k \<noteq> None \<Longrightarrow>
      DAList.lookup (candles (gap_token e now t' w)) k \<noteq> None"
    by (auto simp: gap_token_alt backfillCandles_keeps)
  ultimately show ?thesis using assms(1) unfolding quiet_def by blast
qed

lemma quiet_fold:
  "quiet e now t w \<Longrightarrow> fst t \<notin> fst ` set ts \<Longrightarrow> quiet e now t (fold (gap_token e now) ts w)"
proof (induction ts arbitrary: w)
  case Nil then show ?case by simp
next
  case (Cons t' ts)
  then have "quiet e now t (gap_token e now t' w)" by (intro quiet_other) auto
  then show ?case using Cons by simp
qed

lemma fold_gap_all_quiet:
  "distinct (map fst ts) \<Longrightarrow> \<forall>t \<in> set ts. quiet e now t (fold (gap_token e now) ts w)"
proof (induction ts arbitrary: w)
  case Nil then show ?case by simp
next
  case (Cons t ts)
  have "quiet e now t (fold (gap_token e now) ts (gap_token e now t w))"
    using Cons.prems by (intro quiet_fold quiet_after) auto
  moreover have "\<forall>t' \<in> set ts. quiet e now t' (fold (gap_token e now) ts (gap_token e now t w))"
    using Cons by simp
  ultimately show ?case by simp
qed

lemma fold_fixed: "\<forall>t \<in> set ts. g t w = w \<Longrightarrow> fold g ts w = w"
  by (induction ts) simp_all

lemma tokens_fold_gap: "tokens (fold (gap_token e now) ts w) = tokens w"
  by (induction ts arbitrary: w) (simp_all add: gap_token_alt backfillCandles_def)

lemma gapFill_twice: "gapFillOnStartup e now (gapFillOnStartup e now w) = gapFillOnStartup e now w"
proof -
  let ?ts = "filter (\<lambda>t. t_isActive (snd t) \<and> t_poolAddress (snd t) \<noteq> None) (DAList.impl_of (tokens w))"
  let ?w' = "fold (gap_token e now) ?ts w"
  have d: "distinct (map fst ?ts)" by (simp add: distinct_map_filter)
  have "\<forall>t \<in> set ?ts. gap_token e now t ?w' = ?w'"
    using fold_gap_all_quiet[OF d] quiet_fixed by blast
  then have "fold (gap_token e now) ?ts ?w' = ?w'" by (rule fold_fixed)
  then show ?thesis by (simp add: gapFillOnStartup_def tokens_fold_gap)
qed

lemma candles_gap_world: "DAList.impl_of (candles gap_world) = [((''T'', 60000), \<lparr>d_poolAddress = Some ''P'', d_open = 1, d_high = 2, d_low = 1, d_close = 2, d_volume = 10\<rparr>)]"
  by (simp add: gap_world_def fresh_world_def backfillCandles_def backfill_docs_def bar_def
      insertOne_def Let_def or_null_def DAList.update.rep_eq DAList.empty.rep_eq)

lemma tokens_gap_world: "DAList.impl_of (tokens gap_world) = [(''T'', \<lparr>t_symbol = Some ''TKN'', t_name = Some ''Token'', t_poolAddress = Some ''P'',
            t_launchedAt = None, t_isActive = True\<rparr>)]"
  by (simp add: gap_world_def fresh_world_def backfillCandles_def
       DAList.update.rep_eq DAList.empty.rep_eq)

lemma first_gap_fill: "map fst (DAList.impl_of (candles (gapFillOnStartup listing 1000000 gap_world)))
   = [(''T'', 60000), (''T'', 120000)]"
  by (simp add: gapFillOnStartup_def tokens_gap_world gap_token_def getLatestCandleTime_def
      candles_gap_world
      GAP_THRESHOLD_MS_def getBackfillData_def listing_def or_null_def Let_def
      backfillCandles_def backfill_docs_def bar_def insertOne_def DAList.lookup.rep_eq
      DAList.update.rep_eq)

text \<open>
  Claim C6. A candle whose key is in the store is never overwritten; a batch whose keys
  are all in the store leaves the state as it is, and so does \<open>saveCandle\<close> on a stored
  key: the refusal of the unique index is dropped, both functions return normally. A second
  gap fill at the same clock reading, with the provider answering as it did for the first,
  changes nothing, so the number of stored candles is the same after it.
\<close>

theorem duplicate_candle_writes_are_noops:
  "(\<forall>k d. DAList.lookup (candles w) k = Some d \<longrightarrow>
        DAList.lookup (candles (backfillCandles a pool cs w)) k = Some d)
   \<and> ((\<forall>c \<in> set cs. DAList.lookup (candles w) (a, o_timestamp c) \<noteq> None) \<longrightarrow>
        backfillCandles a pool cs w = w)
   \<and> (DAList.lookup (candles w) (tokenAddress c, timestamp c) \<noteq> None \<longrightarrow> saveCandle c w = w)
   \<and> gapFillOnStartup e now (gapFillOnStartup e now w) = gapFillOnStartup e now w
   \<and> length (DAList.impl_of (candles (gapFillOnStartup e now (gapFillOnStartup e now w))))
       = length (DAList.impl_of (candles (gapFillOnStartup e now w)))"
  by (simp add: backfillCandles_keeps backfillCandles_present gapFill_twice saveCandle_def insertOne_def)

theorem duplicate_candle_writes_are_noops_witness:
  "DAList.lookup (candles gap_world) (''T'', o_timestamp (bar 60000)) \<noteq> None
   \<and> backfillCandles ''T'' (Some ''P'') [bar 60000] gap_world = gap_world
   \<and> DAList.lookup (candles gap_world)
         (tokenAddress ((mk 2 10)\<lparr>tokenAddress := ''T'', timestamp := 60000\<rparr>),
          timestamp ((mk 2 10)\<lparr>tokenAddress := ''T'', timestamp := 60000\<rparr>)) \<noteq> None
   \<and> saveCandle ((mk 2 10)\<lparr>tokenAddress := ''T'', timestamp := 60000\<rparr>) gap_world = gap_world
   \<and> length (DAList.impl_of (candles gap_world)) = 1
   \<and> length (DAList.impl_of (candles (gapFillOnStartup listing 1000000 gap_world))) = 2
   \<and> length (DAList.impl_of (candles (gapFillOnStartup listing 1000000
        (gapFillOnStartup listing 1000000 gap_world)))) = 2"
proof -
  let ?c = "(mk 2 10)\<lparr>tokenAddress := ''T'', timestamp := 60000\<rparr>"
  have h: "DAList.lookup (candles gap_world) (''T'', o_timestamp (bar 60000)) \<noteq> None"
    by (simp add: DAList.lookup.rep_eq candles_gap_world bar_def)
  then have h': "\<forall>c \<in> set [bar 60000].
      DAList.lookup (candles gap_world) (''T'', o_timestamp c) \<noteq> None"
    by simp
  have s: "DAList.lookup (candles gap_world) (tokenAddress ?c, timestamp ?c) \<noteq> None"
    by (simp add: DAList.lookup.rep_eq candles_gap_world)
  have one: "length (DAList.impl_of (candles gap_world)) = 1" by (simp add: candles_gap_world)
  have two: "length (DAList.impl_of (candles (gapFillOnStartup listing 1000000 gap_world))) = 2"
    using arg_cong[OF first_gap_fill, of length] by simp
  note t = duplicate_candle_writes_are_noops
    [of gap_world "''T''" "Some ''P''" "[bar 60000]" ?c listing 1000000]
  show ?thesis using h h' s one two t by simp
qed


section \<open>The seen set of the discovery loop\<close>

lemma length_set_add: "length (set_add x xs) \<le> Suc (length xs)"
  by (simp add: set_add_def)

lemma set_set_add [simp]: "set (set_add x xs) = insert x (set xs)"
  by (auto simp: set_add_def)

lemma distinct_set_add: "distinct xs \<Longrightarrow> distinct (set_add x xs)"
  by (simp add: set_add_def)

lemma mc_filter_length:
  "length (fst (mc_filter e ts seen)) + length (snd (mc_filter e ts seen)) \<le> length seen + length ts"
proof (induction ts arbitrary: seen)
  case Nil then show ?case by simp
next
  case (Cons t ts)
  show ?case
  proof (cases "marketCap e (f_address t)")
    case None
    then show ?thesis using Cons[of seen] by simp
  next
    case (Some mc)
    show ?thesis
    proof (cases "mc < 2000")
      case True
      have "length (fst (mc_filter e ts (set_add (f_address t) seen)))
            + length (snd (mc_filter e ts (set_add (f_address t) seen)))
            \<le> length (set_add (f_address t) seen) + length ts" by (rule Cons)
      also have "\<dots> \<le> Suc (length seen) + length ts" using length_set_add[of "f_address t" seen] by simp
      finally show ?thesis using Some True by simp
    next
      case False
      then show ?thesis using Some Cons[of seen] by simp
    qed
  qed
qed

lemma mc_filter_set:
  "set seen \<subseteq> set (fst (mc_filter e ts seen))
   \<and> set (fst (mc_filter e ts seen)) \<subseteq> set seen \<union> f_address ` set ts
   \<and> set (snd (mc_filter e ts seen)) \<subseteq> set ts"
proof (induction ts arbitrary: seen)
  case Nil then show ?case by simp
next
  case (Cons t ts)
  show ?case
    using Cons[of seen] Cons[of "set_add (f_address t) seen"]
    by (cases "marketCap e (f_address t)") auto
qed

lemma mc_filter_distinct: "distinct seen \<Longrightarrow> distinct (fst (mc_filter e ts seen))"
proof (induction ts arbitrary: seen)
  case Nil then show ?case by simp
next
  case (Cons t ts)
  then show ?case
    by (cases "marketCap e (f_address t)") (auto simp: distinct_set_add)
qed

lemma fst_discover_token: "fst (discover_token e now t st) = set_add (f_address t) (fst st)"
  by (simp add: discover_token_def Let_def split: option.splits)

lemma fold_discover_seen:
  "fst (fold (discover_token e now) ts st) = fold (\<lambda>t s. set_add (f_address t) s) ts (fst st)"
  by (induction ts arbitrary: st) (simp_all add: fst_discover_token)

lemma fold_add_length: "length (fold (\<lambda>t s. set_add (f_address t) s) ts s) \<le> length s + length ts"
proof (induction ts arbitrary: s)
  case Nil then show ?case by simp
next
  case (Cons t ts)
  have "length (fold (\<lambda>t s. set_add (f_address t) s) ts (set_add (f_address t) s))
          \<le> length (set_add (f_address t) s) + length ts" by (rule Cons)
  then show ?case using length_set_add[of "f_address t" s] by simp
qed

lemma fold_add_set: "set (fold (\<lambda>t s. set_add (f_address t) s) ts s) = set s \<union> f_address ` set ts"
  by (induction ts arbitrary: s) auto

lemma fold_add_distinct: "distinct s \<Longrightarrow> distinct (fold (\<lambda>t s. set_add (f_address t) s) ts s)"
  by (induction ts arbitrary: s) (simp_all add: distinct_set_add)

lemma discoveryLoop_seen:
  "length (fst (discoveryLoop e now st)) \<le> length (after_check (fst st)) + length (getMigratedTokens e 20)"
  "set (after_check (fst st)) \<subseteq> set (fst (discoveryLoop e now st))"
  "set (fst (discoveryLoop e now st)) \<subseteq> set (after_check (fst st)) \<union> f_address ` set (getMigratedTokens e 20)"
  "distinct (fst st) \<Longrightarrow> distinct (fst (discoveryLoop e now st))"
proof -
  define seen1 where "seen1 = after_check (fst st)"
  define found_tokens where "found_tokens = getMigratedTokens e 20"
  define notSeenYet where
    "notSeenYet = filter (\<lambda>a. a \<notin> set seen1) (filter (\<lambda>a. a \<noteq> []) (map f_address found_tokens))"
  define activeSet where
    "activeSet = map fst (filter (\<lambda>d. t_isActive (snd d))
      (filter (\<lambda>d. fst d \<in> set notSeenYet) (DAList.impl_of (tokens (snd st)))))"
  define processTokens where
    "processTokens = filter (\<lambda>t. f_address t \<noteq> [] \<and> f_address t \<notin> set seen1
                                            \<and> f_address t \<notin> set activeSet) found_tokens"
  define r where "r = mc_filter e processTokens seen1"
  define final where "final = fold (\<lambda>t s. set_add (f_address t) s) (snd r) (fst r)"
  define result where "result = fst (discoveryLoop e now st)"
  have cases: "result = seen1 \<or> result = fst r \<or> result = final"
    unfolding result_def final_def r_def processTokens_def activeSet_def notSeenYet_def
      found_tokens_def seen1_def
    by (simp add: discoveryLoop_def Let_def after_check_def fold_discover_seen)
  have lp: "length processTokens \<le> length found_tokens" by (simp add: processTokens_def)
  have l2: "length (fst r) + length (snd r) \<le> length seen1 + length processTokens"
    unfolding r_def by (rule mc_filter_length)
  have l3: "length final \<le> length (fst r) + length (snd r)"
    unfolding final_def by (rule fold_add_length)
  have "length result \<le> length seen1 + length found_tokens"
    using cases lp l2 l3 by (elim disjE) simp_all
  then show "length (fst (discoveryLoop e now st))
      \<le> length (after_check (fst st)) + length (getMigratedTokens e 20)"
    by (simp add: result_def seen1_def found_tokens_def)
  have s2: "set seen1 \<subseteq> set (fst r)" "set (fst r) \<subseteq> set seen1 \<union> f_address ` set processTokens"
    "set (snd r) \<subseteq> set processTokens"
    unfolding r_def using mc_filter_set[of seen1 e processTokens] by auto
  have sp: "set processTokens \<subseteq> set found_tokens" by (auto simp: processTokens_def)
  have sf: "set final = set (fst r) \<union> f_address ` set (snd r)"
    unfolding final_def by (rule fold_add_set)
  have "set seen1 \<subseteq> set result"
    using cases s2 sf by (elim disjE) auto
  then show "set (after_check (fst st)) \<subseteq> set (fst (discoveryLoop e now st))"
    by (simp add: result_def seen1_def)
  have ip: "f_address ` set processTokens \<subseteq> f_address ` set found_tokens"
    and il: "f_address ` set (snd r) \<subseteq> f_address ` set found_tokens"
    using sp s2(3) by blast+
  have b1: "set seen1 \<subseteq> set seen1 \<union> f_address ` set found_tokens" by blast
  have b2: "set (fst r) \<subseteq> set seen1 \<union> f_address ` set found_tokens"
    using s2(2) ip by blast
  have b3: "set final \<subseteq> set seen1 \<union> f_address ` set found_tokens"
    unfolding sf using b2 il by blast
  have "set result \<subseteq> set seen1 \<union> f_address ` set found_tokens"
    using cases b1 b2 b3 by (elim disjE) simp_all
  then show "set (fst (discoveryLoop e now st))
      \<subseteq> set (after_check (fst st)) \<union> f_address ` set (getMigratedTokens e 20)"
    by (simp add: result_def seen1_def found_tokens_def)
  show "distinct (fst st) \<Longrightarrow> distinct (fst (discoveryLoop e now st))"
  proof -
    assume "distinct (fst st)"
    then have "distinct seen1" by (simp add: after_check_def seen1_def)
    then have "distinct result"
      using cases unfolding final_def r_def
      by (elim disjE) (simp_all add: mc_filter_distinct fold_add_distinct)
    then show ?thesis by (simp add: result_def)
  qed
qed

lemma discovery_run_bound:
  assumes "\<forall>c \<in> set cs. length (getMigratedTokens (fst c) 20) \<le> b"
    and "length (fst st) \<le> MAX_SEEN + b"
  shows "length (fst (discovery_run cs st)) \<le> MAX_SEEN + b"
  using assms
proof (induction cs arbitrary: st)
  case Nil
  then show ?case by simp
next
  case (Cons c cs)
  have "length (after_check (fst st)) \<le> MAX_SEEN" by (simp add: after_check_def)
  moreover have "length (getMigratedTokens (fst c) 20) \<le> b" using Cons.prems(1) by simp
  ultimately have "length (fst (discoveryLoop (fst c) (snd c) st)) \<le> MAX_SEEN + b"
    using discoveryLoop_seen(1)[of "fst c" "snd c" st] by linarith
  then show ?case using Cons by simp
qed

lemma feed2_tokens: "map f_address (getMigratedTokens feed2 20) = [''A'', ''B'']"
  by (simp add: getMigratedTokens_def feed2_def env.extend_def offline_def set_add_def)

lemma feed2_cycle: "length seen > MAX_SEEN \<or> seen = [] \<Longrightarrow>
   fst (discoveryLoop feed2 1000 (seen, fresh_world)) = [''B'', ''A'']"
  by (auto simp add: discoveryLoop_def Let_def getMigratedTokens_def feed2_def env.extend_def offline_def
      set_add_def fresh_world_def DAList.empty.rep_eq fst_discover_token MAX_SEEN_def)

text \<open>
  Claim C7. A cycle that starts with more than \<open>MAX_SEEN\<close> (5000) addresses in the
  seen set keeps none of them: what the set holds afterwards comes from this cycle's
  batch. A cycle that starts at or below the cap evicts nothing. After every cycle the set
  holds at most the cap plus the size of the batch, it has no repeated address if it had
  none, and over any run of cycles whose batches have at most \<open>b\<close> tokens the size stays
  within the cap plus \<open>b\<close>.
\<close>

theorem seen_set_reset_and_bound:
  "(length seen > MAX_SEEN \<longrightarrow>
      set (fst (discoveryLoop e now (seen, w))) \<subseteq> f_address ` set (getMigratedTokens e 20))
   \<and> (length seen \<le> MAX_SEEN \<longrightarrow> set seen \<subseteq> set (fst (discoveryLoop e now (seen, w))))
   \<and> length (fst (discoveryLoop e now (seen, w))) \<le> MAX_SEEN + length (getMigratedTokens e 20)
   \<and> (distinct seen \<longrightarrow> distinct (fst (discoveryLoop e now (seen, w))))
   \<and> ((\<forall>c \<in> set cs. length (getMigratedTokens (fst c) 20) \<le> b) \<longrightarrow>
        length seen \<le> MAX_SEEN + b \<longrightarrow>
        length (fst (discovery_run cs (seen, w))) \<le> MAX_SEEN + b)"
proof (intro conjI impI)
  assume "length seen > MAX_SEEN"
  then have "after_check (fst (seen, w)) = []" by (simp add: after_check_def)
  then show "set (fst (discoveryLoop e now (seen, w))) \<subseteq> f_address ` set (getMigratedTokens e 20)"
    using discoveryLoop_seen(3)[of e now "(seen, w)"] by simp
next
  assume "length seen \<le> MAX_SEEN"
  then have "after_check (fst (seen, w)) = seen" by (simp add: after_check_def)
  then show "set seen \<subseteq> set (fst (discoveryLoop e now (seen, w)))"
    using discoveryLoop_seen(2)[of "(seen, w)" e now] by simp
next
  have "length (after_check (fst (seen, w))) \<le> MAX_SEEN" by (simp add: after_check_def)
  then show "length (fst (discoveryLoop e now (seen, w))) \<le> MAX_SEEN + length (getMigratedTokens e 20)"
    using discoveryLoop_seen(1)[of e now "(seen, w)"] by linarith
next
  assume "distinct seen"
  then show "distinct (fst (discoveryLoop e now (seen, w)))"
    using discoveryLoop_seen(4)[of "(seen, w)" e now] by simp
next
  assume "\<forall>c \<in> set cs. length (getMigratedTokens (fst c) 20) \<le> b" "length seen \<le> MAX_SEEN + b"
  then show "length (fst (discovery_run cs (seen, w))) \<le> MAX_SEEN + b"
    using discovery_run_bound[of cs b "(seen, w)"] by simp
qed

theorem seen_set_reset_and_bound_witness:
  "length big_seen > MAX_SEEN
   \<and> fst (discoveryLoop feed2 1000 (big_seen, fresh_world)) = [''B'', ''A'']
   \<and> set (fst (discoveryLoop feed2 1000 (big_seen, fresh_world)))
        \<subseteq> f_address ` set (getMigratedTokens feed2 20)
   \<and> length ([] :: address list) \<le> MAX_SEEN
   \<and> fst (discoveryLoop feed2 1000 ([], fresh_world)) = [''B'', ''A'']
   \<and> length (fst (discoveryLoop feed2 1000 (big_seen, fresh_world)))
        \<le> MAX_SEEN + length (getMigratedTokens feed2 20)
   \<and> distinct ([] :: address list)
   \<and> distinct (fst (discoveryLoop feed2 1000 ([], fresh_world)))
   \<and> length (getMigratedTokens feed2 20) \<le> 20
   \<and> length big_seen \<le> MAX_SEEN + 20
   \<and> length (fst (discovery_run [(feed2, 1000), (feed2, 61000)] (big_seen, fresh_world)))
        \<le> MAX_SEEN + 20"
proof -
  have big: "length big_seen > MAX_SEEN" and big': "length big_seen \<le> MAX_SEEN + 20"
    by (simp_all add: big_seen_def MAX_SEEN_def)
  have small: "length ([] :: address list) \<le> MAX_SEEN" by simp
  have n: "length (getMigratedTokens feed2 20) \<le> 20"
    using arg_cong[OF feed2_tokens, of length] by simp
  then have all: "\<forall>c \<in> set [(feed2, 1000 :: date), (feed2, 61000)].
      length (getMigratedTokens (fst c) 20) \<le> 20" by simp
  have c1: "fst (discoveryLoop feed2 1000 (big_seen, fresh_world)) = [''B'', ''A'']"
    using big by (simp add: feed2_cycle)
  have c2: "fst (discoveryLoop feed2 1000 ([], fresh_world)) = [''B'', ''A'']"
    by (simp add: feed2_cycle)
  note T1 = seen_set_reset_and_bound[of big_seen feed2 1000 fresh_world
      "[(feed2, 1000), (feed2, 61000)]" 20]
  note T2 = seen_set_reset_and_bound[of "[]" feed2 1000 fresh_world "[]" 20]
  have s: "set (fst (discoveryLoop feed2 1000 (big_seen, fresh_world)))
        \<subseteq> f_address ` set (getMigratedTokens feed2 20)"
    using T1 big by blast
  have l: "length (fst (discoveryLoop feed2 1000 (big_seen, fresh_world)))
        \<le> MAX_SEEN + length (getMigratedTokens feed2 20)"
    using T1 by blast
  have d: "distinct (fst (discoveryLoop feed2 1000 ([], fresh_world)))"
    using T2 by simp
  have r: "length (fst (discovery_run [(feed2, 1000), (feed2, 61000)] (big_seen, fresh_world)))
        \<le> MAX_SEEN + 20"
    using T1 all big' by blast
  show ?thesis using big big' small n c1 c2 s l d r by simp
qed


end
